theory Spec2Isabelle
  imports Main "HOL-Library.AList"
begin

section \<open>JavaScript values\<close>

text \<open>
  The data the offline link handles (mutation variables, optimistic responses, server
  responses, the identifier map) is JSON-shaped: the queue and the map are persisted and
  rehydrated, and responses come off the wire. A value is a tree; an object is the list of
  its own enumerable properties in insertion order, each key once. \<open>JNum\<close> holds integral
  numbers only. \<open>JBuiltin\<close> stands for a member inherited from \<open>Object.prototype\<close>, named
  by its key.
\<close>

datatype jsval =
    JUndefined
  | JNull
  | JBool bool
  | JNum int
  | JStr string
  | JArr "jsval list"
  | JObj "(string \<times> jsval) list"
  | JBuiltin string

text \<open>What \<open>if (v)\<close>, \<open>!v\<close> and \<open>a || b\<close> test.\<close>

fun truthy :: "jsval \<Rightarrow> bool" where
  "truthy JUndefined = False"
| "truthy JNull = False"
| "truthy (JBool b) = b"
| "truthy (JNum n) = (n \<noteq> 0)"
| "truthy (JStr s) = (s \<noteq> [])"
| "truthy (JArr xs) = True"
| "truthy (JObj fs) = True"
| "truthy (JBuiltin n) = True"

fun typeof :: "jsval \<Rightarrow> string" where
  "typeof JUndefined = ''undefined''"
| "typeof JNull = ''object''"
| "typeof (JBool b) = ''boolean''"
| "typeof (JNum n) = ''number''"
| "typeof (JStr s) = ''string''"
| "typeof (JArr xs) = ''object''"
| "typeof (JObj fs) = ''object''"
| "typeof (JBuiltin n) = ''function''"

text \<open>A thrown exception: a \<open>TypeError\<close> raised by the engine, or a value thrown by
  code that is called (the user's resolver, a library helper).\<close>

datatype exn = TypeError | Thrown jsval

text \<open>A property or argument that may be missing (\<open>undefined\<close>), \<open>null\<close>, or an object.\<close>

datatype 'a js_field = Absent | IsNull | Present 'a

subsection \<open>Property keys\<close>

text \<open>
  \<open>map[obj]\<close> turns \<open>obj\<close> into a property key with \<open>ToString\<close>: a number prints in decimal,
  an array prints its elements joined by commas (\<open>null\<close> and \<open>undefined\<close> as nothing), an
  object with no \<open>toString\<close> or \<open>valueOf\<close> of its own prints as \<open>[object Object]\<close>.
\<close>

definition digit_char :: "nat \<Rightarrow> char" where
  "digit_char d = ''0123456789'' ! d"

function show_nat :: "nat \<Rightarrow> string" where
  "show_nat n = (if n < 10 then [digit_char n] else show_nat (n div 10) @ [digit_char (n mod 10)])"
  by pat_completeness auto
termination
  by (relation "measure id") auto

declare show_nat.simps [simp del]

definition show_int :: "int \<Rightarrow> string" where
  "show_int i = (if i < 0 then CHR ''-'' # show_nat (nat (- i)) else show_nat (nat i))"

definition join :: "string \<Rightarrow> string list \<Rightarrow> string" where
  "join sep xs = (case xs of [] \<Rightarrow> [] | y # ys \<Rightarrow> y @ concat (map (\<lambda>z. sep @ z) ys))"

fun toString :: "jsval \<Rightarrow> string" where
  "toString JUndefined = ''undefined''"
| "toString JNull = ''null''"
| "toString (JBool b) = (if b then ''true'' else ''false'')"
| "toString (JNum n) = show_int n"
| "toString (JStr s) = s"
| "toString (JArr xs) =
     join '','' (map (\<lambda>x. if x = JUndefined \<or> x = JNull then [] else toString x) xs)"
| "toString (JObj fs) = ''[object Object]''"
| "toString (JBuiltin n) = ''function '' @ n @ ''() { [native code] }''"

text \<open>Reading \<open>map[key]\<close> on a plain object: an own property first, then what
  \<open>Object.prototype\<close> hands down, else \<open>undefined\<close>.\<close>

definition Object_prototype_keys :: "string list" where
  "Object_prototype_keys =
     [''constructor'', ''hasOwnProperty'', ''isPrototypeOf'', ''propertyIsEnumerable'',
      ''toLocaleString'', ''toString'', ''valueOf'', ''__proto__'',
      ''__defineGetter__'', ''__defineSetter__'', ''__lookupGetter__'', ''__lookupSetter__'']"

definition lookup :: "(string \<times> jsval) list \<Rightarrow> string \<Rightarrow> jsval" where
  "lookup fs k =
     (case map_of fs k of
        Some v \<Rightarrow> v
      | None \<Rightarrow> if k \<in> set Object_prototype_keys then JBuiltin k else JUndefined)"

text \<open>
  \<open>Object.keys\<close>, \<open>Object.values\<close>, \<open>forEach\<close> over the keys and the spread \<open>{...o}\<close> visit the
  own properties in the engine's order: array indices (canonical numerals below
  \<open>2^32 - 1\<close>) ascending, then the other keys as inserted.
\<close>

definition is_digit :: "char \<Rightarrow> bool" where
  "is_digit c \<longleftrightarrow> 48 \<le> (of_char c :: nat) \<and> (of_char c :: nat) \<le> 57"

definition parse_int :: "string \<Rightarrow> int" where
  "parse_int s = fold (\<lambda>c n. 10 * n + (of_char c - 48)) s 0"

definition array_index :: "string \<Rightarrow> int option" where
  "array_index s =
     (if s \<noteq> [] \<and> list_all is_digit s \<and> (s = ''0'' \<or> hd s \<noteq> CHR ''0'')
         \<and> parse_int s < 4294967295
      then Some (parse_int s) else None)"

definition own_property_order :: "(string \<times> 'a) list \<Rightarrow> (string \<times> 'a) list" where
  "own_property_order fs =
     sort_key (\<lambda>(k, v). the (array_index k)) (filter (\<lambda>(k, v). array_index k \<noteq> None) fs)
     @ filter (\<lambda>(k, v). array_index k = None) fs"

fun Object_entries :: "jsval \<Rightarrow> (string \<times> jsval) list" where
  "Object_entries (JObj fs) = own_property_order fs"
| "Object_entries (JArr xs) = map (\<lambda>(i, x). (show_nat i, x)) (enumerate 0 xs)"
| "Object_entries v = []"

text \<open>\<open>{...state, ...entries}\<close>: a new object that receives the properties of \<open>state\<close>, then
  those of \<open>entries\<close>; \<open>acc[k] = v\<close> is \<open>AList.update k v acc\<close> (the key \<open>__proto__\<close>, an
  accessor in the engine, is written like any other).\<close>

definition spread ::
  "(string \<times> jsval) list \<Rightarrow> (string \<times> jsval) list \<Rightarrow> (string \<times> jsval) list" where
  "spread state entries =
     fold (\<lambda>(k, v). AList.update k v) (own_property_order entries)
       (fold (\<lambda>(k, v). AList.update k v) (own_property_order state) [])"

lemma size_elem_le: "x \<in> set xs \<Longrightarrow> size x \<le> size_list size xs"
  by (induction xs) auto

lemma size_field_le: "(k, v) \<in> set fs \<Longrightarrow> size v \<le> size_list (size_prod (\<lambda>x. 0) size) fs"
  by (induction fs) auto

lemma set_own_property_order [simp]: "set (own_property_order fs) = set fs"
  by (auto simp: own_property_order_def)

lemma size_entry_less:
  "(k, v) \<in> set (Object_entries obj) \<Longrightarrow> size v < size obj"
proof (cases obj)
  case (JArr xs)
  assume "(k, v) \<in> set (Object_entries obj)"
  with JArr have "v \<in> set xs"
    by (auto simp: in_set_enumerate_eq)
  with JArr show ?thesis
    by (auto dest!: size_elem_le)
next
  case (JObj fs)
  assume "(k, v) \<in> set (Object_entries obj)"
  with JObj show ?thesis
    by (auto dest!: size_field_le)
qed auto

lemma size_entry_elem_less:
  "(k, JArr xs) \<in> set (Object_entries obj) \<Longrightarrow> (i, v) \<in> set (enumerate 0 xs)
     \<Longrightarrow> size v < size obj"
proof -
  assume a: "(k, JArr xs) \<in> set (Object_entries obj)" and b: "(i, v) \<in> set (enumerate 0 xs)"
  from b have "v \<in> set xs" by (auto simp: in_set_enumerate_eq)
  then have "size v \<le> size_list size xs" by (rule size_elem_le)
  moreover from a have "size (JArr xs) < size obj" by (rule size_entry_less)
  ultimately show ?thesis by simp
qed

section \<open>Identifier substitution and extraction\<close>

text \<open>
  \<^verbatim>\<open>
  export const replaceUsingMap = (obj, map = {}) => {
      if (!obj || !map) { return obj; }
      const newVal = map[obj];
      if (newVal) { obj = newVal; return obj; }
      if (typeof obj === 'object') {
          Object.keys(obj).forEach(key => {
              const val = obj[key];
              if (Array.isArray(val)) {
                  obj[key] = val.map((v, i) => replaceUsingMap(v, map));
              } else if (typeof val === 'object') {
                  obj[key] = replaceUsingMap(val, map);
              } else {
                  const newVal = map[val];
                  if (newVal) { obj[key] = newVal; }
              }
          });
      }
      return obj;
  };
  \<close>
  The argument \<open>map\<close> is \<open>Absent\<close> (the default \<open>{}\<close> applies), \<open>null\<close>, or an object.
  \<open>replaceUsingMap_key\<close> is the body of the \<open>forEach\<close> callback: the new value of \<open>obj[key]\<close>
  from the old one. Each key is rewritten from its own old value, so on a tree the loop is
  the image of the property list. Nothing here bounds the depth or remembers the objects
  visited; the recursion ends because a tree is finite.
\<close>

definition the_map :: "(string \<times> jsval) list js_field \<Rightarrow> (string \<times> jsval) list" where
  "the_map marg = (case marg of Present m \<Rightarrow> m | _ \<Rightarrow> [])"

function replaceUsingMap :: "jsval \<Rightarrow> (string \<times> jsval) list js_field \<Rightarrow> jsval"
  and replaceUsingMap_key :: "jsval \<Rightarrow> (string \<times> jsval) list js_field \<Rightarrow> jsval" where
  "replaceUsingMap obj marg =
     (if \<not> truthy obj \<or> marg = IsNull then obj
      else if truthy (lookup (the_map marg) (toString obj)) then lookup (the_map marg) (toString obj)
      else
        (case obj of
           JObj fs \<Rightarrow> JObj (map (\<lambda>(key, val). (key, replaceUsingMap_key val marg)) fs)
         | JArr xs \<Rightarrow> JArr (map (\<lambda>val. replaceUsingMap_key val marg) xs)
         | _ \<Rightarrow> obj))"
| "replaceUsingMap_key val marg =
     (case val of
        JArr elems \<Rightarrow> JArr (map (\<lambda>v. replaceUsingMap v marg) elems)
      | JObj gs \<Rightarrow> replaceUsingMap val marg
      | JNull \<Rightarrow> replaceUsingMap val marg
      | _ \<Rightarrow> if truthy (lookup (the_map marg) (toString val))
             then lookup (the_map marg) (toString val) else val)"
  by pat_completeness auto
termination
  by (relation "measure (\<lambda>x. case x of Inl (obj, marg) \<Rightarrow> 2 * size obj
                                      | Inr (val, marg) \<Rightarrow> 2 * size val + 1)")
     (auto dest!: size_elem_le size_field_le)

declare replaceUsingMap.simps [simp del] replaceUsingMap_key.simps [simp del]

text \<open>
  \<open>const [, , id = null] = dataId.match(/(.+:)?(.+)/) || []\<close>: the match starts at the first
  character that is not a line terminator and stays on that line; the first group is
  greedy, so \<open>id\<close> is what follows the last colon that has a character before it and one
  after it, or the whole line when there is no such colon; \<open>null\<close> when nothing matches.
  (Of the line terminators only LF and CR are single characters here.)
\<close>

definition line_terminator :: "char \<Rightarrow> bool" where
  "line_terminator c \<longleftrightarrow> c = CHR 0x0A \<or> c = CHR 0x0D"

definition match_id :: "string \<Rightarrow> jsval" where
  "match_id dataId =
     (let line = takeWhile (\<lambda>c. \<not> line_terminator c) (dropWhile line_terminator dataId);
          colons = filter (\<lambda>j. line ! j = CHR '':'') [1 ..< length line - 1]
      in if line = [] then JNull
         else if colons = [] then JStr line
         else JStr (drop (last colons + 1) line))"

text \<open>
  \<^verbatim>\<open>
  export const getIds = (dataIdFromObject, obj, path = '', acc = {}) => {
      if (!obj) { return acc; }
      if (typeof obj === 'object') {
          const dataId = dataIdFromObject(obj);
          if (dataId) {
              const [, , id = null] = dataId.match(/(.+:)?(.+)/) || [];
              if (isUuid(dataId)) { acc[path] = id; }
          }
          Object.keys(obj).forEach(key => {
              const val = obj[key];
              if (Array.isArray(val)) {
                  val.forEach((v, i) => getIds(dataIdFromObject, v, `${path}.${key}[${i}]`, acc));
              } else if (typeof val === 'object') {
                  getIds(dataIdFromObject, val, `${path}${path && '.'}${key}`, acc);
              }
          });
      }
      return getIds(dataIdFromObject, null, path, acc);
  };
  \<close>
  \<open>dataIdFromObject\<close> is the cache's identity function (a string or \<open>null\<close>) and \<open>isUuid\<close>
  comes from the utilities module; both are parameters. The accumulator is written in
  place and handed back, so it is threaded through the calls.
\<close>

function getIds ::
  "(jsval \<Rightarrow> string option) \<Rightarrow> (string \<Rightarrow> bool) \<Rightarrow> jsval \<Rightarrow> string
     \<Rightarrow> (string \<times> jsval) list \<Rightarrow> (string \<times> jsval) list" where
  "getIds dataIdFromObject isUuid obj path acc =
     (if \<not> truthy obj then acc
      else if typeof obj \<noteq> ''object'' then acc
      else
        fold (\<lambda>(key, val) acc.
                case val of
                  JArr elems \<Rightarrow>
                    fold (\<lambda>(i, v) acc.
                            getIds dataIdFromObject isUuid v
                              (path @ ''.'' @ key @ ''['' @ show_nat i @ '']'') acc)
                         (enumerate 0 elems) acc
                | JObj gs \<Rightarrow>
                    getIds dataIdFromObject isUuid val
                      (path @ (if path = [] then [] else ''.'') @ key) acc
                | JNull \<Rightarrow>
                    getIds dataIdFromObject isUuid val
                      (path @ (if path = [] then [] else ''.'') @ key) acc
                | _ \<Rightarrow> acc)
             (Object_entries obj)
             (case dataIdFromObject obj of
                None \<Rightarrow> acc
              | Some dataId \<Rightarrow>
                  if dataId \<noteq> [] \<and> isUuid dataId then AList.update path (match_id dataId) acc
                  else acc))"
  by pat_completeness auto
termination
  by (relation "measure (\<lambda>(d, u, obj, path, acc). size obj)")
     (auto dest: size_entry_less size_entry_elem_less)

declare getIds.simps [simp del]

text \<open>
  \<^verbatim>\<open>
  const intersectingKeys = (obj1 = {}, obj2 = {}) => {
      const keys1 = Object.keys(obj1);
      const keys2 = Object.keys(obj2);
      return keys1.filter(k => keys2.indexOf(k) !== -1);
  };
  const mapIds = (obj1, obj2) =>
      intersectingKeys(obj1, obj2).reduce((acc, k) => (acc[obj1[k]] = obj2[k], acc), {});
  \<close>
\<close>

definition intersectingKeys ::
  "(string \<times> jsval) list \<Rightarrow> (string \<times> jsval) list \<Rightarrow> string list" where
  "intersectingKeys obj1 obj2 =
     (let keys1 = map fst (own_property_order obj1);
          keys2 = map fst (own_property_order obj2)
      in filter (\<lambda>k. k \<in> set keys2) keys1)"

definition mapIds ::
  "(string \<times> jsval) list \<Rightarrow> (string \<times> jsval) list \<Rightarrow> (string \<times> jsval) list" where
  "mapIds obj1 obj2 =
     fold (\<lambda>k acc. AList.update (toString (lookup obj1 k)) (lookup obj2 k) acc)
          (intersectingKeys obj1 obj2) []"

text \<open>The strings a value holds (property names are not among them), and the values
  nested in it.\<close>

fun string_leaves :: "jsval \<Rightarrow> string list" where
  "string_leaves (JStr s) = [s]"
| "string_leaves (JArr xs) = concat (map string_leaves xs)"
| "string_leaves (JObj fs) = concat (map (\<lambda>(k, v). string_leaves v) fs)"
| "string_leaves v = []"

fun subvalues :: "jsval \<Rightarrow> jsval list" where
  "subvalues (JArr xs) = JArr xs # concat (map subvalues xs)"
| "subvalues (JObj fs) = JObj fs # concat (map (\<lambda>(k, v). subvalues v) fs)"
| "subvalues v = [v]"

text \<open>\<open>settled m v\<close>: no identifier (non-empty string) in \<open>v\<close> has a truthy entry in \<open>m\<close>.
  \<open>no_chained_ids m\<close>: what \<open>m\<close> substitutes is settled, that is, no server identifier is
  itself a key with a truthy entry.\<close>

definition settled :: "(string \<times> jsval) list \<Rightarrow> jsval \<Rightarrow> bool" where
  "settled m v \<longleftrightarrow> list_all (\<lambda>s. s = [] \<or> \<not> truthy (lookup m s)) (string_leaves v)"


section \<open>The metadata reducers\<close>

text \<open>
  The actions the reducers tell apart; every other type takes the \<open>default\<close> branch.
  \<open>SAVE_SNAPSHOT\<close> carries what \<open>cache.extract(false)\<close> returns, \<open>ENQUEUE\<close> the optimistic
  response of its payload, \<open>SAVE_SERVER_ID\<close> the optimistic response and the server's data,
  \<open>PERSIST_REHYDRATE\<close> the persisted metadata, if any.
\<close>

record snapshot_state =
  enqueuedMutations :: int
  cache :: "(string \<times> jsval) list"

record metadata_state =
  snapshot :: snapshot_state
  idsMap :: "(string \<times> jsval) list"

datatype redux_action =
    SAVE_SNAPSHOT "(string \<times> jsval) list"
  | ENQUEUE jsval
  | COMMIT
  | ROLLBACK
  | SAVE_SERVER_ID jsval jsval
  | PERSIST_REHYDRATE "metadata_state option"
  | OTHER string

text \<open>
  \<^verbatim>\<open>
  const enqueuedMutationsReducer = (state = 0, action) => {
      switch (action.type) {
          case actions.ENQUEUE: return state + 1;
          case actions.COMMIT:
          case actions.ROLLBACK: return state - 1;
          default: return state;
      }
  };
  \<close>
\<close>

fun enqueuedMutationsReducer :: "int option \<Rightarrow> redux_action \<Rightarrow> int" where
  "enqueuedMutationsReducer st (ENQUEUE opt) = (case st of None \<Rightarrow> 0 | Some n \<Rightarrow> n) + 1"
| "enqueuedMutationsReducer st COMMIT = (case st of None \<Rightarrow> 0 | Some n \<Rightarrow> n) - 1"
| "enqueuedMutationsReducer st ROLLBACK = (case st of None \<Rightarrow> 0 | Some n \<Rightarrow> n) - 1"
| "enqueuedMutationsReducer st a = (case st of None \<Rightarrow> 0 | Some n \<Rightarrow> n)"

text \<open>\<open>cacheSnapshotReducer\<close>: \<open>SAVE_SNAPSHOT\<close> stores a copy \<open>{ ...cache.extract(false) }\<close>.\<close>

fun cacheSnapshotReducer ::
  "(string \<times> jsval) list option \<Rightarrow> redux_action \<Rightarrow> (string \<times> jsval) list" where
  "cacheSnapshotReducer st (SAVE_SNAPSHOT contents) = spread [] contents"
| "cacheSnapshotReducer st a = (case st of None \<Rightarrow> [] | Some s \<Rightarrow> s)"

definition snapshotReducer :: "snapshot_state option \<Rightarrow> redux_action \<Rightarrow> snapshot_state" where
  "snapshotReducer state action =
     \<lparr> enqueuedMutations = enqueuedMutationsReducer (map_option enqueuedMutations state) action,
       cache = cacheSnapshotReducer (map_option cache state) action \<rparr>"

text \<open>
  \<^verbatim>\<open>
  const idsMapReducer = (state = {}, action, dataIdFromObject) => {
      const { type, payload = {} } = action;
      const { optimisticResponse } = payload;
      switch (type) {
          case actions.ENQUEUE:
              const ids = getIds(dataIdFromObject, optimisticResponse);
              const entries = Object.values(ids).reduce((acc, id) => (acc[id] = null, acc), {});
              return { ...state, ...entries };
          case actions.COMMIT:
              const { remainingMutations } = action;
              // Clear ids map on last mutation
              return remainingMutations ? state : {};
          case actions.SAVE_SERVER_ID:
              const { data } = payload;
              const oldIds = getIds(dataIdFromObject, optimisticResponse);
              const newIds = getIds(dataIdFromObject, data);
              const mapped = mapIds(oldIds, newIds);
              return { ...state, ...mapped };
          default:
              return state;
      }
  };
  \<close>
  The last argument is \<open>action.remainingMutations\<close>, which \<open>metadataReducer\<close> sets to the
  count the snapshot reducer has just computed. \<open>ROLLBACK\<close> has no case of its own.
\<close>

fun idsMapReducer ::
  "(jsval \<Rightarrow> string option) \<Rightarrow> (string \<Rightarrow> bool) \<Rightarrow> (string \<times> jsval) list option
     \<Rightarrow> redux_action \<Rightarrow> int \<Rightarrow> (string \<times> jsval) list" where
  "idsMapReducer dataIdFromObject isUuid st (ENQUEUE optimisticResponse) remainingMutations =
     (let state = (case st of None \<Rightarrow> [] | Some s \<Rightarrow> s);
          ids = getIds dataIdFromObject isUuid optimisticResponse [] [];
          entries = fold (\<lambda>id acc. AList.update (toString id) JNull acc)
                         (map snd (own_property_order ids)) []
      in spread state entries)"
| "idsMapReducer dataIdFromObject isUuid st COMMIT remainingMutations =
     (let state = (case st of None \<Rightarrow> [] | Some s \<Rightarrow> s)
      in if remainingMutations \<noteq> 0 then state else [])"
| "idsMapReducer dataIdFromObject isUuid st (SAVE_SERVER_ID optimisticResponse data)
       remainingMutations =
     (let state = (case st of None \<Rightarrow> [] | Some s \<Rightarrow> s);
          oldIds = getIds dataIdFromObject isUuid optimisticResponse [] [];
          newIds = getIds dataIdFromObject isUuid data [] [];
          mapped = mapIds oldIds newIds
      in spread state mapped)"
| "idsMapReducer dataIdFromObject isUuid st a remainingMutations =
     (case st of None \<Rightarrow> [] | Some s \<Rightarrow> s)"

text \<open>
  \<^verbatim>\<open>
  const metadataReducer = dataIdFromObject => (state, action) => {
      const { type, payload } = action;
      switch (type) {
          case PERSIST_REHYDRATE:
              const { [METADATA_KEY]: rehydratedState } = payload;
              return rehydratedState || state;
          default:
              const snapshot = snapshotReducer(state && state.snapshot, action);
              const idsMap = idsMapReducer(state && state.idsMap,
                  { ...action, remainingMutations: snapshot.enqueuedMutations }, dataIdFromObject);
              return { snapshot, idsMap };
      }
  };
  \<close>
\<close>

definition metadataReducer ::
  "(jsval \<Rightarrow> string option) \<Rightarrow> (string \<Rightarrow> bool) \<Rightarrow> metadata_state option
     \<Rightarrow> redux_action \<Rightarrow> metadata_state option" where
  "metadataReducer dataIdFromObject isUuid state action =
     (case action of
        PERSIST_REHYDRATE rehydratedState \<Rightarrow>
          (case rehydratedState of Some r \<Rightarrow> Some r | None \<Rightarrow> state)
      | _ \<Rightarrow>
          (let snapshot = snapshotReducer (map_option snapshot state) action;
               idsMap = idsMapReducer dataIdFromObject isUuid (map_option idsMap state) action
                          (enqueuedMutations snapshot)
           in Some \<lparr> snapshot = snapshot, idsMap = idsMap \<rparr>))"

text \<open>The store after a sequence of actions.\<close>

definition dispatch_all ::
  "(jsval \<Rightarrow> string option) \<Rightarrow> (string \<Rightarrow> bool) \<Rightarrow> metadata_state option
     \<Rightarrow> redux_action list \<Rightarrow> metadata_state option" where
  "dispatch_all dataIdFromObject isUuid state actions =
     fold (\<lambda>action st. metadataReducer dataIdFromObject isUuid st action) actions state"

section \<open>Substitution on shared and cyclic structures\<close>

text \<open>
  \<open>replaceUsingMap\<close> updates its argument in place, and the variables it is given are
  supplied by the caller. To speak of shared and of cyclic structures the objects live in
  a store: a value is a primitive or the address of an object or array, and the store is
  the list of the objects allocated so far. \<open>val.map(...)\<close> allocates a new array; every
  other write goes to an existing object.

  JavaScript has no bound on the recursion but the engine's stack. The model counts the
  call depth: \<open>replaceUsingMap_heap n\<close> may nest \<open>n\<close> calls, and \<open>None\<close> says that it would
  have to go deeper. \<open>K\<close> is the engine's \<open>ToString\<close> of an object (\<open>[object Object]\<close> for a
  plain object, the joined elements for an array), a parameter.
\<close>

datatype hval =
  HUndefined | HNull | HBool bool | HNum int | HStr string | HBuiltin string | HRef nat

datatype hobj = HObject "(string \<times> hval) list" | HArray "hval list"

type_synonym heap = "hobj list"

datatype pkey = Name string | Index nat

fun htruthy :: "hval \<Rightarrow> bool" where
  "htruthy HUndefined = False"
| "htruthy HNull = False"
| "htruthy (HBool b) = b"
| "htruthy (HNum n) = (n \<noteq> 0)"
| "htruthy (HStr s) = (s \<noteq> [])"
| "htruthy (HBuiltin n) = True"
| "htruthy (HRef a) = True"

fun is_ref :: "hval \<Rightarrow> bool" where
  "is_ref (HRef a) = True"
| "is_ref v = False"

fun the_ref :: "hval \<Rightarrow> nat" where
  "the_ref (HRef a) = a"
| "the_ref v = 0"

fun keys_of :: "hobj \<Rightarrow> pkey list" where
  "keys_of (HObject fs) = map (\<lambda>(k, v). Name k) (own_property_order fs)"
| "keys_of (HArray xs) = map Index [0 ..< length xs]"

fun get_prop :: "hobj \<Rightarrow> pkey \<Rightarrow> hval" where
  "get_prop (HObject fs) (Name k) = (case map_of fs k of Some v \<Rightarrow> v | None \<Rightarrow> HUndefined)"
| "get_prop (HArray xs) (Index i) = (if i < length xs then xs ! i else HUndefined)"
| "get_prop obj key = HUndefined"

fun set_prop :: "hobj \<Rightarrow> pkey \<Rightarrow> hval \<Rightarrow> hobj" where
  "set_prop (HObject fs) (Name k) v = HObject (AList.update k v fs)"
| "set_prop (HArray xs) (Index i) v = HArray (xs[i := v])"
| "set_prop obj key v = obj"

fun children :: "hobj \<Rightarrow> hval list" where
  "children (HObject fs) = map snd fs"
| "children (HArray xs) = xs"

fun is_array :: "heap \<Rightarrow> hval \<Rightarrow> bool" where
  "is_array h (HRef b) = (case h ! b of HArray xs \<Rightarrow> True | _ \<Rightarrow> False)"
| "is_array h v = False"

fun array_length :: "hobj \<Rightarrow> nat" where
  "array_length (HArray xs) = length xs"
| "array_length obj = 0"

definition hkey :: "(heap \<Rightarrow> nat \<Rightarrow> string) \<Rightarrow> heap \<Rightarrow> hval \<Rightarrow> string" where
  "hkey K h v =
     (case v of
        HUndefined \<Rightarrow> ''undefined''
      | HNull \<Rightarrow> ''null''
      | HBool b \<Rightarrow> (if b then ''true'' else ''false'')
      | HNum n \<Rightarrow> show_int n
      | HStr s \<Rightarrow> s
      | HBuiltin n \<Rightarrow> ''function '' @ n @ ''() { [native code] }''
      | HRef a \<Rightarrow> K h a)"

definition hlookup :: "(string \<times> hval) list \<Rightarrow> string \<Rightarrow> hval" where
  "hlookup m k =
     (case map_of m k of
        Some v \<Rightarrow> v
      | None \<Rightarrow> if k \<in> set Object_prototype_keys then HBuiltin k else HUndefined)"

text \<open>
  \<open>forEach_key\<close> is the loop over \<open>Object.keys(obj)\<close> for the object at address \<open>a\<close>;
  \<open>map_elems\<close> is \<open>val.map(v => replaceUsingMap(v, map))\<close> for the array at address \<open>b\<close>, over
  the indices still to visit. Both read the store as the calls before them left it.
\<close>

function replaceUsingMap_heap ::
    "nat \<Rightarrow> (heap \<Rightarrow> nat \<Rightarrow> string) \<Rightarrow> (string \<times> hval) list \<Rightarrow> hval \<Rightarrow> heap
       \<Rightarrow> (hval \<times> heap) option"
  and forEach_key ::
    "nat \<Rightarrow> (heap \<Rightarrow> nat \<Rightarrow> string) \<Rightarrow> (string \<times> hval) list \<Rightarrow> nat \<Rightarrow> pkey list \<Rightarrow> heap
       \<Rightarrow> heap option"
  and map_elems ::
    "nat \<Rightarrow> (heap \<Rightarrow> nat \<Rightarrow> string) \<Rightarrow> (string \<times> hval) list \<Rightarrow> nat \<Rightarrow> nat list \<Rightarrow> heap
       \<Rightarrow> (hval list \<times> heap) option"
where
  "replaceUsingMap_heap 0 K m obj h = None"
| "replaceUsingMap_heap (Suc n) K m obj h =
     (if \<not> htruthy obj then Some (obj, h)
      else if htruthy (hlookup m (hkey K h obj)) then Some (hlookup m (hkey K h obj), h)
      else
        (case obj of
           HRef a \<Rightarrow>
             (case forEach_key n K m a (keys_of (h ! a)) h of
                None \<Rightarrow> None
              | Some h' \<Rightarrow> Some (obj, h'))
         | _ \<Rightarrow> Some (obj, h)))"
| "forEach_key n K m a [] h = Some h"
| "forEach_key n K m a (key # keys) h =
     (let val = get_prop (h ! a) key in
      if is_array h val then
        (case map_elems n K m (the_ref val) [0 ..< array_length (h ! the_ref val)] h of
           None \<Rightarrow> None
         | Some (rs, h') \<Rightarrow>
             forEach_key n K m a keys
               ((h' @ [HArray rs])[a := set_prop (h' ! a) key (HRef (length h'))]))
      else if val = HNull \<or> is_ref val then
        (case replaceUsingMap_heap n K m val h of
           None \<Rightarrow> None
         | Some (r, h') \<Rightarrow> forEach_key n K m a keys (h'[a := set_prop (h' ! a) key r]))
      else if htruthy (hlookup m (hkey K h val)) then
        forEach_key n K m a keys (h[a := set_prop (h ! a) key (hlookup m (hkey K h val))])
      else forEach_key n K m a keys h)"
| "map_elems n K m b [] h = Some ([], h)"
| "map_elems n K m b (i # is) h =
     (case replaceUsingMap_heap n K m (get_prop (h ! b) (Index i)) h of
        None \<Rightarrow> None
      | Some (r, h') \<Rightarrow>
          (case map_elems n K m b is h' of
             None \<Rightarrow> None
           | Some (rs, h'') \<Rightarrow> Some (r # rs, h'')))"
  by pat_completeness auto
termination
  by (relation "measures
        [\<lambda>x. case x of Inl (n, K, m, obj, h) \<Rightarrow> 2 * n
                      | Inr (Inl (n, K, m, a, keys, h)) \<Rightarrow> 2 * n + 1
                      | Inr (Inr (n, K, m, b, is, h)) \<Rightarrow> 2 * n + 1,
         \<lambda>x. case x of Inl (n, K, m, obj, h) \<Rightarrow> 0
                      | Inr (Inl (n, K, m, a, keys, h)) \<Rightarrow> 1
                      | Inr (Inr (n, K, m, b, is, h)) \<Rightarrow> 0,
         \<lambda>x. case x of Inl (n, K, m, obj, h) \<Rightarrow> 0
                      | Inr (Inl (n, K, m, a, keys, h)) \<Rightarrow> length keys
                      | Inr (Inr (n, K, m, b, is, h)) \<Rightarrow> length is]")
     auto

text \<open>
  An acyclic store has ranks: one number for each address, so that every reference held
  by an object points to an object of smaller rank. Sharing is allowed. \<open>below ranks h x v\<close>
  says that \<open>v\<close>, if a reference, is a valid address of rank less than \<open>x\<close>. \<open>enough n\<close> is the
  depth needed for a value: one call for a primitive, the rank plus two for an object.
  The identifier map holds identifiers and \<open>null\<close>, no objects: \<open>no_refs\<close>.
\<close>

definition below :: "nat list \<Rightarrow> heap \<Rightarrow> nat \<Rightarrow> hval \<Rightarrow> bool" where
  "below ranks h x v = (case v of HRef b \<Rightarrow> b < length h \<and> ranks ! b < x | _ \<Rightarrow> True)"

definition well_ranked :: "nat list \<Rightarrow> heap \<Rightarrow> bool" where
  "well_ranked ranks h \<longleftrightarrow>
     length ranks = length h \<and>
     list_all (\<lambda>a. list_all (below ranks h (ranks ! a)) (children (h ! a))) [0 ..< length h]"

definition enough :: "nat \<Rightarrow> nat list \<Rightarrow> heap \<Rightarrow> hval \<Rightarrow> bool" where
  "enough n ranks h v \<longleftrightarrow>
     0 < n \<and> (case v of HRef a \<Rightarrow> a < length h \<and> ranks ! a + 2 \<le> n | _ \<Rightarrow> True)"

definition no_refs :: "(string \<times> hval) list \<Rightarrow> bool" where
  "no_refs m \<longleftrightarrow> list_all (\<lambda>(k, v). \<not> is_ref v) m"

text \<open>What the induction on the depth carries: the call returns, the store it leaves is
  still ranked (by the old ranks and those of the arrays allocated since), and the result
  is the argument itself or no reference.\<close>

definition returns ::
  "nat \<Rightarrow> (heap \<Rightarrow> nat \<Rightarrow> string) \<Rightarrow> (string \<times> hval) list \<Rightarrow> bool" where
  "returns n K m \<longleftrightarrow>
     (\<forall>v h ranks. well_ranked ranks h \<longrightarrow> enough n ranks h v \<longrightarrow>
        (\<exists>r h' zs. replaceUsingMap_heap n K m v h = Some (r, h')
            \<and> well_ranked (ranks @ zs) h' \<and> length h \<le> length h' \<and> (r = v \<or> \<not> is_ref r)))"

section \<open>The discard decision\<close>

record AWSAppsyncGraphQLError =
  errorType :: "string option"
  data :: jsval

record network_error =
  nw_graphQLErrors :: "AWSAppsyncGraphQLError list option"

record error =
  graphQLErrors :: "AWSAppsyncGraphQLError list option"
  networkError :: "network_error js_field"
  permanent :: jsval

record effect =
  mutation :: jsval
  variables :: jsval

record offline_meta =
  effect :: effect

record action_meta =
  offline :: offline_meta

record action =
  meta :: action_meta

record ConflictResolutionInfo =
  ci_mutation :: jsval
  ci_mutationName :: jsval
  ci_operationType :: jsval
  ci_variables :: jsval
  ci_data :: jsval
  ci_retries :: int

text \<open>The user's resolver returns a value or throws.\<close>

type_synonym ConflictResolver = "ConflictResolutionInfo \<Rightarrow> exn + jsval"

text \<open>The argument \<open>fn\<close>: left out (\<open>undefined\<close>, so that the default parameter value
  applies), something that is not a function, or a function.\<close>

datatype fn_arg = Omitted | NotAFunction | Fn ConflictResolver

text \<open>\<open>getOperationName\<close> and \<open>getOperationDefinition\<close> are imported from
  apollo-utilities; they are parameters here, and each may throw.\<close>

record apollo_utilities =
  getOperationName :: "jsval \<Rightarrow> exn + jsval"
  getOperationDefinition :: "jsval \<Rightarrow> exn + jsval"

text \<open>\<open>const { operation: operationType } = operationDefinition\<close>: destructuring
  \<open>undefined\<close> or \<open>null\<close> throws; a primitive has no such property.\<close>

fun destructure_operation :: "jsval \<Rightarrow> exn + jsval" where
  "destructure_operation JUndefined = Inl TypeError"
| "destructure_operation JNull = Inl TypeError"
| "destructure_operation (JObj fs) =
     (case map_of fs ''operation'' of Some v \<Rightarrow> Inr v | None \<Rightarrow> Inr JUndefined)"
| "destructure_operation v = Inr JUndefined"

definition conditionalCheckFailed :: string where
  "conditionalCheckFailed = ''DynamoDB:ConditionalCheckFailedException''"

definition isConditionalCheck :: "AWSAppsyncGraphQLError \<Rightarrow> bool" where
  "isConditionalCheck err \<longleftrightarrow> errorType err = Some conditionalCheckFailed"

text \<open>\<open>err.errorType && err.errorType.startsWith('AWSAppSyncClient:')\<close>\<close>

definition isAppSyncClientError :: "AWSAppsyncGraphQLError \<Rightarrow> bool" where
  "isAppSyncClientError err \<longleftrightarrow>
     (case errorType err of None \<Rightarrow> False
      | Some t \<Rightarrow> t \<noteq> [] \<and> take 17 t = ''AWSAppSyncClient:'')"

text \<open>\<open>return error.permanent || retries > 10\<close>\<close>

definition permanentOrRetries :: "error \<Rightarrow> int \<Rightarrow> jsval" where
  "permanentOrRetries error retries =
     (if truthy (permanent error) then permanent error else JBool (retries > 10))"

text \<open>\<open>action.meta.offline.effect.variables = conflictResolutionResult\<close>\<close>

definition set_variables :: "action \<Rightarrow> jsval \<Rightarrow> action" where
  "set_variables a v =
     a\<lparr>meta := (meta a)\<lparr>offline := (offline (meta a))\<lparr>effect :=
        (effect (offline (meta a)))\<lparr>variables := v\<rparr>\<rparr>\<rparr>\<rparr>"

text \<open>
  \<open>_discard\<close> of the offline link (the name cannot start with an underscore here). The
  result is the returned value together with the action, whose effect the function may
  have updated, or the exception that escapes.

  \<^verbatim>\<open>
  const _discard = (fn = () => 'DISCARD', error, action, retries) => {
      const { graphQLErrors = [] } = error;
      const conditionalCheck = graphQLErrors.find(err => err.errorType === '...');
      if (conditionalCheck) {
          if (typeof fn === 'function') {
              ... try { const r = fn({...});
                        if (r === 'DISCARD') return true;
                        if (r) { action.meta.offline.effect.variables = r; return false; }
                  } catch (err) { return true; }
          }
      } else if (graphQLErrors.length) { return true; }
      else { ... if (appSyncClientError) return true; }
      return error.permanent || retries > 10;
  };
  \<close>
\<close>

definition discard_impl ::
  "apollo_utilities \<Rightarrow> fn_arg \<Rightarrow> error \<Rightarrow> action \<Rightarrow> int \<Rightarrow> exn + (jsval \<times> action)" where
  "discard_impl U fn0 error action retries =
    (let fn = (case fn0 of Omitted \<Rightarrow> Fn (\<lambda>_. Inr (JStr ''DISCARD'')) | _ \<Rightarrow> fn0);
         gqlErrors = (case graphQLErrors error of None \<Rightarrow> [] | Some es \<Rightarrow> es);
         fallthrough = Inr (permanentOrRetries error retries, action)
     in case find isConditionalCheck gqlErrors of
          Some conditionalCheck \<Rightarrow>
            (case fn of
               Fn f \<Rightarrow>
                 (let eff = effect (offline (meta action)) in
                  case getOperationName U (mutation eff) of
                    Inl e \<Rightarrow> Inl e
                  | Inr mutationName \<Rightarrow>
                 (case getOperationDefinition U (mutation eff) of
                    Inl e \<Rightarrow> Inl e
                  | Inr operationDefinition \<Rightarrow>
                 (case destructure_operation operationDefinition of
                    Inl e \<Rightarrow> Inl e
                  | Inr operationType \<Rightarrow>
                 (case f \<lparr> ci_mutation = mutation eff, ci_mutationName = mutationName,
                           ci_operationType = operationType, ci_variables = variables eff,
                           ci_data = data conditionalCheck, ci_retries = retries \<rparr> of
                    Inl thrown \<Rightarrow> Inr (JBool True, action)
                  | Inr conflictResolutionResult \<Rightarrow>
                      if conflictResolutionResult = JStr ''DISCARD'' then Inr (JBool True, action)
                      else if truthy conflictResolutionResult
                        then Inr (JBool False, set_variables action conflictResolutionResult)
                      else fallthrough))))
             | _ \<Rightarrow> fallthrough)
        | None \<Rightarrow>
            if gqlErrors \<noteq> [] then Inr (JBool True, action)
            else
              (case networkError error of
                 IsNull \<Rightarrow> Inl TypeError
               | Absent \<Rightarrow> fallthrough
               | Present ne \<Rightarrow>
                   (case find isAppSyncClientError
                           (case nw_graphQLErrors ne of None \<Rightarrow> [] | Some es \<Rightarrow> es) of
                      Some appSyncClientError \<Rightarrow> Inr (JBool True, action)
                    | None \<Rightarrow> fallthrough)))"

text \<open>\<open>discard = (fn = () => 'DISCARD') => (error, action, retries) => _discard(fn, ...)\<close>;
  the logging of a discarded action has no effect on the result.\<close>

definition discard ::
  "apollo_utilities \<Rightarrow> fn_arg \<Rightarrow> error \<Rightarrow> action \<Rightarrow> int \<Rightarrow> exn + (jsval \<times> action)" where
  "discard U fn0 error action retries =
    (let fn = (case fn0 of Omitted \<Rightarrow> Fn (\<lambda>_. Inr (JStr ''DISCARD'')) | _ \<Rightarrow> fn0)
     in discard_impl U fn error action retries)"

text \<open>
  The earlier JavaScript version of the link has one function \<open>discard\<close>. Its default
  resolver is \<open>() => null\<close>, and it reads \<open>networkError.graphQLErrors\<close> with no default:
  \<^verbatim>\<open>
  export const discard = (fn = () => null) => (error, action, retries) => {
      ...
      } else {
          const { networkError: { graphQLErrors } = { graphQLErrors: [] } } = error;
          const appSyncClientError = graphQLErrors.find(...);
  \<close>
  so \<open>find\<close> is called on \<open>undefined\<close> when the network error has no such list.
\<close>

definition discard_001 ::
  "apollo_utilities \<Rightarrow> fn_arg \<Rightarrow> error \<Rightarrow> action \<Rightarrow> int \<Rightarrow> exn + (jsval \<times> action)" where
  "discard_001 U fn0 error action retries =
    (let fn = (case fn0 of Omitted \<Rightarrow> Fn (\<lambda>_. Inr JNull) | _ \<Rightarrow> fn0);
         gqlErrors = (case graphQLErrors error of None \<Rightarrow> [] | Some es \<Rightarrow> es);
         fallthrough = Inr (permanentOrRetries error retries, action)
     in case find isConditionalCheck gqlErrors of
          Some conditionalCheck \<Rightarrow>
            (case fn of
               Fn f \<Rightarrow>
                 (let eff = effect (offline (meta action)) in
                  case getOperationName U (mutation eff) of
                    Inl e \<Rightarrow> Inl e
                  | Inr mutationName \<Rightarrow>
                 (case getOperationDefinition U (mutation eff) of
                    Inl e \<Rightarrow> Inl e
                  | Inr operationDefinition \<Rightarrow>
                 (case destructure_operation operationDefinition of
                    Inl e \<Rightarrow> Inl e
                  | Inr operationType \<Rightarrow>
                 (case f \<lparr> ci_mutation = mutation eff, ci_mutationName = mutationName,
                           ci_operationType = operationType, ci_variables = variables eff,
                           ci_data = data conditionalCheck, ci_retries = retries \<rparr> of
                    Inl thrown \<Rightarrow> Inr (JBool True, action)
                  | Inr conflictResolutionResult \<Rightarrow>
                      if conflictResolutionResult = JStr ''DISCARD'' then Inr (JBool True, action)
                      else if truthy conflictResolutionResult
                        then Inr (JBool False, set_variables action conflictResolutionResult)
                      else fallthrough))))
             | _ \<Rightarrow> fallthrough)
        | None \<Rightarrow>
            if gqlErrors \<noteq> [] then Inr (JBool True, action)
            else
              (case networkError error of
                 IsNull \<Rightarrow> Inl TypeError
               | Absent \<Rightarrow> fallthrough
               | Present ne \<Rightarrow>
                   (case nw_graphQLErrors ne of
                      None \<Rightarrow> Inl TypeError
                    | Some es \<Rightarrow>
                        (case find isAppSyncClientError es of
                           Some appSyncClientError \<Rightarrow> Inr (JBool True, action)
                         | None \<Rightarrow> fallthrough))))"






text \<open>The argument the resolver is called with.\<close>

definition resolution_info ::
  "action \<Rightarrow> jsval \<Rightarrow> jsval \<Rightarrow> AWSAppsyncGraphQLError \<Rightarrow> int \<Rightarrow> ConflictResolutionInfo" where
  "resolution_info action mutationName operationType conditionalCheck retries =
     \<lparr> ci_mutation = mutation (effect (offline (meta action))),
       ci_mutationName = mutationName,
       ci_operationType = operationType,
       ci_variables = variables (effect (offline (meta action))),
       ci_data = data conditionalCheck,
       ci_retries = retries \<rparr>"


section \<open>The link: a mutation on its first issuance\<close>

text \<open>
  \<^verbatim>\<open>
  request(operation, forward) {
      return new Observable(observer => {
          const { offline: { online } } = this.store.getState();
          const { operation: operationType } = getOperationDefinition(operation.query);
          const isMutation = operationType === 'mutation';
          const isQuery = operationType === 'query';
          if (!online && isQuery) {
              const data = processOfflineQuery(operation, this.store);
              observer.next({ data }); observer.complete();
              return () => null;
          }
          if (isMutation) {
              const { AASContext: { doIt = false } = {}, cache } = operation.getContext();
              if (!doIt) {
                  const { [METADATA_KEY]: { snapshot: { enqueuedMutations } } } = this.store.getState();
                  if (enqueuedMutations === 0) { boundSaveSnapshot(this.store, cache); }
                  const data = enqueueMutation(operation, this.store, observer);
                  if (!online) { observer.next({ data }); observer.complete(); }
                  return () => null;
              }
          }
          const handle = forward(operation).subscribe({ ... });
          ...
  \<close>
  An operation carries what the helpers of apollo-utilities read off its document (the
  operation type, the top-level selections of the mutation) and what its context holds.
  The optimistic response is a value (\<open>undefined\<close> when the caller gave none) or a function
  of the variables. The effect of \<open>request\<close> is the list of what it does, in order: actions
  dispatched to the store, values handed to the observer, and \<open>Forward\<close> when the operation
  goes on to the network link.
\<close>

datatype optimistic = Response jsval | ResponseFn "jsval \<Rightarrow> jsval"

record 'f operation =
  operationType :: string
  selections :: "'f list"
  op_variables :: jsval
  doIt :: bool
  origOptimistic :: optimistic
  cacheContents :: "(string \<times> jsval) list"








subsection \<open>Sample errors, actions and resolvers\<close>

text \<open>The backend error of the test suite, a conflict, and a plain network failure.\<close>

definition backendError :: AWSAppsyncGraphQLError where
  "backendError = \<lparr> errorType = Some ''DynamoDB:AmazonDynamoDBException'', data = JNull \<rparr>"

definition graphqlError :: error where
  "graphqlError = \<lparr> graphQLErrors = Some [backendError], networkError = IsNull,
                     permanent = JUndefined \<rparr>"

definition conflictEntry :: AWSAppsyncGraphQLError where
  "conflictEntry = \<lparr> errorType = Some ''DynamoDB:ConditionalCheckFailedException'',
                      data = JObj [(''id'', JStr ''1''), (''version'', JNum 2)] \<rparr>"

definition conflictError :: error where
  "conflictError = \<lparr> graphQLErrors = Some [conflictEntry], networkError = IsNull,
                      permanent = JUndefined \<rparr>"


definition sample_utilities :: apollo_utilities where
  "sample_utilities =
     \<lparr> getOperationName = (\<lambda>doc. Inr (JStr ''addTodo'')),
       getOperationDefinition = (\<lambda>doc. Inr (JObj [(''operation'', JStr ''mutation'')])) \<rparr>"

definition sample_action :: action where
  "sample_action =
     \<lparr> meta = \<lparr> offline = \<lparr> effect =
        \<lparr> mutation = JObj [(''kind'', JStr ''Document'')],
          variables = JObj [(''id'', JStr ''1''), (''expectedVersion'', JNum 1)] \<rparr> \<rparr> \<rparr> \<rparr>"

text \<open>Sample resolvers: one discards, one answers with new variables, one throws.\<close>

definition resolver_discards :: ConflictResolver where
  "resolver_discards info = Inr (JStr ''DISCARD'')"

definition resolver_takes_server_version :: ConflictResolver where
  "resolver_takes_server_version info =
     Inr (JObj [(''id'', JStr ''1''), (''expectedVersion'', JNum 2)])"


subsection \<open>Sample responses\<close>

text \<open>An identity function of the shape \<open>Typename:id\<close> and a stand-in for \<open>isUuid\<close>; a
  parent with one child as the client made it up and as the server answered.\<close>

definition sample_dataIdFromObject :: "jsval \<Rightarrow> string option" where
  "sample_dataIdFromObject obj =
     (case obj of
        JObj fs \<Rightarrow>
          (case (map_of fs ''__typename'', map_of fs ''id'') of
             (Some (JStr t), Some (JStr i)) \<Rightarrow> Some (t @ '':'' @ i)
           | _ \<Rightarrow> None)
      | _ \<Rightarrow> None)"

definition sample_isUuid :: "string \<Rightarrow> bool" where
  "sample_isUuid s \<longleftrightarrow> CHR ''-'' \<in> set s"

definition optimisticParent :: jsval where
  "optimisticParent =
     JObj [(''addParent'',
            JObj [(''__typename'', JStr ''Parent''), (''id'', JStr ''aaaa-1''),
                  (''kids'', JArr [JObj [(''__typename'', JStr ''Kid''),
                                         (''id'', JStr ''bbbb-2'')]])])]"


text \<open>Variables of a queued child mutation that names two parents.\<close>

definition childVariables :: jsval where
  "childVariables =
     JObj [(''parentId'', JStr ''aaaa-1''), (''otherParentId'', JStr ''eeee-5''),
           (''name'', JStr ''kid'')]"

subsection \<open>Sample stores and operations\<close>

text \<open>A plain object prints as \<open>[object Object]\<close>. A structure that holds itself, and one
  in which an object is shared by an array and its owner.\<close>

definition plainKey :: "heap \<Rightarrow> nat \<Rightarrow> string" where
  "plainKey h a = ''[object Object]''"

definition cyclic_heap :: heap where
  "cyclic_heap = [HObject [(''self'', HRef 0)]]"

definition shared_heap :: heap where
  "shared_heap =
     [HObject [(''id'', HStr ''aaaa-1''), (''kids'', HRef 1), (''first'', HRef 2)],
      HArray [HStr ''aaaa-1'', HRef 2],
      HObject [(''parentId'', HStr ''aaaa-1'')]]"




section \<open>Properties of the discard decision\<close>

lemma find_isConditionalCheck_None:
  "(\<forall>g \<in> set gs. errorType g \<noteq> Some conditionalCheckFailed) \<Longrightarrow> find isConditionalCheck gs = None"
  by (simp add: find_None_iff isConditionalCheck_def)

text \<open>
  C8. An error whose GraphQL-error list is not empty and holds no conditional-check
  failure is discarded: \<open>_discard\<close> returns \<open>true\<close> and leaves the action alone, whatever the
  resolver, the retry count and the rest of the error are.
\<close>

theorem C8_other_graphql_error_discards:
  assumes "graphQLErrors error = Some gs"
      and "gs \<noteq> []"
      and "\<forall>g \<in> set gs. errorType g \<noteq> Some conditionalCheckFailed"
  shows "discard_impl U fn error action retries = Inr (JBool True, action)"
  using assms by (simp add: discard_impl_def Let_def find_isConditionalCheck_None)

theorem C8_witness:
  "discard_impl sample_utilities Omitted graphqlError sample_action 3
     = Inr (JBool True, sample_action)"
  using C8_other_graphql_error_discards
          [of graphqlError "[backendError]" sample_utilities Omitted sample_action 3]
  by (simp add: graphqlError_def backendError_def conditionalCheckFailed_def)







subsection \<open>Conflicts\<close>

text \<open>What both versions do once the conflict entry is found, a function is at hand and
  the lookups before the \<open>try\<close> block have returned.\<close>

definition after_resolver ::
  "exn + jsval \<Rightarrow> error \<Rightarrow> action \<Rightarrow> int \<Rightarrow> exn + (jsval \<times> action)" where
  "after_resolver res error action retries =
     (case res of
        Inl thrown \<Rightarrow> Inr (JBool True, action)
      | Inr r \<Rightarrow>
          if r = JStr ''DISCARD'' then Inr (JBool True, action)
          else if truthy r then Inr (JBool False, set_variables action r)
          else Inr (permanentOrRetries error retries, action))"

lemma conflict_discard_impl:
  assumes "graphQLErrors error = Some gs"
      and "find isConditionalCheck gs = Some cc"
      and "getOperationName U (mutation (effect (offline (meta action)))) = Inr name"
      and "getOperationDefinition U (mutation (effect (offline (meta action)))) = Inr d"
      and "destructure_operation d = Inr t"
  shows "discard_impl U (Fn f) error action retries
           = after_resolver (f (resolution_info action name t cc retries)) error action retries"
  using assms
  by (simp add: discard_impl_def Let_def resolution_info_def after_resolver_def
           split: sum.splits)

lemma conflict_discard_001:
  assumes "graphQLErrors error = Some gs"
      and "find isConditionalCheck gs = Some cc"
      and "getOperationName U (mutation (effect (offline (meta action)))) = Inr name"
      and "getOperationDefinition U (mutation (effect (offline (meta action)))) = Inr d"
      and "destructure_operation d = Inr t"
  shows "discard_001 U (Fn f) error action retries
           = after_resolver (f (resolution_info action name t cc retries)) error action retries"
  using assms
  by (simp add: discard_001_def Let_def resolution_info_def after_resolver_def
           split: sum.splits)

lemma discard_Fn: "discard U (Fn f) error action retries = discard_impl U (Fn f) error action retries"
  by (simp add: discard_def)

lemma discard_Omitted:
  "discard U Omitted error action retries
     = discard_impl U (Fn (\<lambda>_. Inr (JStr ''DISCARD''))) error action retries"
  by (simp add: discard_def)

lemma discard_001_Omitted:
  "discard_001 U Omitted error action retries
     = discard_001 U (Fn (\<lambda>_. Inr JNull)) error action retries"
  by (simp add: discard_001_def)

text \<open>
  C3 (as amended). Let the error hold a conditional-check failure \<open>cc\<close>, and let the
  lookups on the effect's mutation return. In both versions of the link: a resolver that
  returns \<open>'DISCARD'\<close> gives the decision \<open>true\<close>; a resolver that returns any other
  truthy value \<open>r\<close> gives \<open>false\<close>, and the effect's variables become \<open>r\<close>. With no resolver
  supplied the link's default \<open>() => 'DISCARD'\<close> decides \<open>true\<close>, while the earlier
  version's default \<open>() => null\<close> leaves the decision to \<open>error.permanent || retries > 10\<close>.
\<close>

theorem C3_conflict_decision:
  assumes "graphQLErrors error = Some gs"
      and "find isConditionalCheck gs = Some cc"
      and "getOperationName U (mutation (effect (offline (meta action)))) = Inr name"
      and "getOperationDefinition U (mutation (effect (offline (meta action)))) = Inr d"
      and "destructure_operation d = Inr t"
  shows "(f (resolution_info action name t cc retries) = Inr (JStr ''DISCARD'') \<longrightarrow>
            discard U (Fn f) error action retries = Inr (JBool True, action)
          \<and> discard_001 U (Fn f) error action retries = Inr (JBool True, action))
       \<and> (\<forall>r. f (resolution_info action name t cc retries) = Inr r \<and> truthy r
                \<and> r \<noteq> JStr ''DISCARD'' \<longrightarrow>
            discard U (Fn f) error action retries = Inr (JBool False, set_variables action r)
          \<and> discard_001 U (Fn f) error action retries
               = Inr (JBool False, set_variables action r))
       \<and> discard U Omitted error action retries = Inr (JBool True, action)
       \<and> discard_001 U Omitted error action retries
            = Inr (permanentOrRetries error retries, action)"
proof -
  note new = conflict_discard_impl [OF assms]
  note old = conflict_discard_001 [OF assms]
  have 1: "discard U (Fn f) error action retries = Inr (JBool True, action)
         \<and> discard_001 U (Fn f) error action retries = Inr (JBool True, action)"
    if "f (resolution_info action name t cc retries) = Inr (JStr ''DISCARD'')"
    using that by (simp add: discard_Fn new old after_resolver_def)
  have 2: "discard U (Fn f) error action retries = Inr (JBool False, set_variables action r)
         \<and> discard_001 U (Fn f) error action retries
              = Inr (JBool False, set_variables action r)"
    if "f (resolution_info action name t cc retries) = Inr r" "truthy r" "r \<noteq> JStr ''DISCARD''"
    for r
    using that by (simp add: discard_Fn new old after_resolver_def)
  have 3: "discard U Omitted error action retries = Inr (JBool True, action)"
    by (simp add: discard_Omitted new after_resolver_def)
  have 4: "discard_001 U Omitted error action retries
             = Inr (permanentOrRetries error retries, action)"
    by (simp add: discard_001_Omitted old after_resolver_def)
  from 1 2 3 4 show ?thesis by blast
qed

lemma sample_conflict_facts:
  "graphQLErrors conflictError = Some [conflictEntry]"
  "find isConditionalCheck [conflictEntry] = Some conflictEntry"
  "getOperationName sample_utilities (mutation (effect (offline (meta sample_action))))
     = Inr (JStr ''addTodo'')"
  "getOperationDefinition sample_utilities (mutation (effect (offline (meta sample_action))))
     = Inr (JObj [(''operation'', JStr ''mutation'')])"
  "destructure_operation (JObj [(''operation'', JStr ''mutation'')]) = Inr (JStr ''mutation'')"
  by (simp_all add: conflictError_def conflictEntry_def isConditionalCheck_def
        conditionalCheckFailed_def sample_utilities_def)

theorem C3_witness:
  "discard sample_utilities (Fn resolver_discards) conflictError sample_action 0
     = Inr (JBool True, sample_action)
   \<and> discard sample_utilities (Fn resolver_takes_server_version) conflictError sample_action 0
     = Inr (JBool False,
            set_variables sample_action (JObj [(''id'', JStr ''1''), (''expectedVersion'', JNum 2)]))
   \<and> discard sample_utilities Omitted conflictError sample_action 0
     = Inr (JBool True, sample_action)
   \<and> discard_001 sample_utilities Omitted conflictError sample_action 0
     = Inr (JBool False, sample_action)"
  using C3_conflict_decision [OF sample_conflict_facts, of resolver_discards 0]
        C3_conflict_decision [OF sample_conflict_facts, of resolver_takes_server_version 0]
  by (simp add: resolver_discards_def resolver_takes_server_version_def
                permanentOrRetries_def conflictError_def)

text \<open>On a conflict the earlier version, called with no resolver, does not discard.\<close>

theorem C3_counterexample:
  "discard_001 sample_utilities Omitted conflictError sample_action 0
     = Inr (JBool False, sample_action)"
  by (simp add: discard_001_def conflictError_def conflictEntry_def isConditionalCheck_def
        conditionalCheckFailed_def sample_utilities_def permanentOrRetries_def)


section \<open>Properties of substitution, extraction and the reducers\<close>


lemma settled_simps [simp]:
  "settled m JUndefined" "settled m JNull" "settled m (JBool b)" "settled m (JNum n)"
  "settled m (JBuiltin x)"
  "settled m (JStr s) \<longleftrightarrow> s = [] \<or> \<not> truthy (lookup m s)"
  "settled m (JArr xs) \<longleftrightarrow> (\<forall>x \<in> set xs. settled m x)"
  "settled m (JObj fs) \<longleftrightarrow> (\<forall>(k, v) \<in> set fs. settled m v)"
  by (auto simp: settled_def list_all_iff)




lemma subvalues_self: "v \<in> set (subvalues v)"
  by (cases v) auto

lemma replace_identity:
  "(\<forall>w \<in> set (subvalues v). \<not> truthy (lookup m (toString w)))
     \<Longrightarrow> replaceUsingMap v (Present m) = v \<and> replaceUsingMap_key v (Present m) = v"
proof (induction v rule: measure_induct_rule [of size])
  case (less v)
  have self: "\<not> truthy (lookup m (toString v))"
    using less.prems subvalues_self by blast
  have elem: "replaceUsingMap x (Present m) = x" "replaceUsingMap_key x (Present m) = x"
    if "x \<in> set xs" "v = JArr xs" for x xs
  proof -
    from that have "size x < size v" by (auto dest: size_elem_le)
    moreover from that less.prems
    have "\<forall>w \<in> set (subvalues x). \<not> truthy (lookup m (toString w))" by auto
    ultimately show "replaceUsingMap x (Present m) = x" "replaceUsingMap_key x (Present m) = x"
      using less.IH by blast+
  qed
  have field: "replaceUsingMap_key x (Present m) = x" if "(k, x) \<in> set fs" "v = JObj fs" for k x fs
  proof -
    from that have "size x < size v" by (auto dest: size_field_le)
    moreover from that less.prems
    have "\<forall>w \<in> set (subvalues x). \<not> truthy (lookup m (toString w))" by fastforce
    ultimately show ?thesis using less.IH by blast
  qed
  have P: "replaceUsingMap v (Present m) = v"
    using self unfolding replaceUsingMap.simps [of v]
    by (cases v) (auto simp: the_map_def elem field intro!: map_idI)
  have Q: "replaceUsingMap_key v (Present m) = v"
    using self P unfolding replaceUsingMap_key.simps [of v]
    by (cases v) (auto simp: the_map_def elem intro!: map_idI)
  from P Q show ?case ..
qed

lemma replace_null_entry:
  "map_of m t = Some JNull \<Longrightarrow>
     replaceUsingMap (JStr t) (Present m) = JStr t \<and> replaceUsingMap_key (JStr t) (Present m) = JStr t"
  by (simp add: replaceUsingMap.simps [of "JStr t"] replaceUsingMap_key.simps [of "JStr t"]
        lookup_def the_map_def)


definition upd_all :: "(string \<times> jsval) list \<Rightarrow> (string \<times> jsval) list \<Rightarrow> (string \<times> jsval) list" where
  "upd_all W acc = fold (\<lambda>(k, v). AList.update k v) W acc"

lemma upd_all_append: "upd_all (W1 @ W2) acc = upd_all W2 (upd_all W1 acc)"
  by (simp add: upd_all_def)

lemma fold_writes:
  assumes "\<And>x. x \<in> set xs \<Longrightarrow> \<exists>W. \<forall>acc. f x acc = upd_all W acc"
  shows "\<exists>W. \<forall>acc. fold f xs acc = upd_all W acc"
  using assms
proof (induction xs)
  case Nil
  have "\<forall>acc. fold f [] acc = upd_all [] acc" by (simp add: upd_all_def)
  then show ?case by blast
next
  case (Cons x xs)
  from Cons.prems obtain W1 where W1: "\<forall>acc. f x acc = upd_all W1 acc" by auto
  from Cons obtain W2 where W2: "\<forall>acc. fold f xs acc = upd_all W2 acc" by auto
  have "\<forall>acc. fold f (x # xs) acc = upd_all (W1 @ W2) acc"
    by (simp add: W1 W2 upd_all_append)
  then show ?case by blast
qed


lemma getIds_writes:
  "\<exists>W. \<forall>acc. getIds d u obj path acc = upd_all W acc"
proof (induction obj arbitrary: path rule: measure_induct_rule [of size])
  case (less obj)
  let ?first = "\<lambda>acc. case d obj of
                        None \<Rightarrow> acc
                      | Some dataId \<Rightarrow>
                          if dataId \<noteq> [] \<and> u dataId then AList.update path (match_id dataId) acc
                          else acc"
  let ?body = "\<lambda>(key, val) acc.
                case val of
                  JArr elems \<Rightarrow>
                    fold (\<lambda>(i, v) acc.
                            getIds d u v (path @ ''.'' @ key @ ''['' @ show_nat i @ '']'') acc)
                         (enumerate 0 elems) acc
                | JObj gs \<Rightarrow> getIds d u val (path @ (if path = [] then [] else ''.'') @ key) acc
                | JNull \<Rightarrow> getIds d u val (path @ (if path = [] then [] else ''.'') @ key) acc
                | _ \<Rightarrow> acc"
  have nothing: "\<exists>W. \<forall>acc::(string \<times> jsval) list. acc = upd_all W acc"
    by (rule exI [of _ "[]"]) (simp add: upd_all_def)
  have first: "\<exists>W. \<forall>acc. ?first acc = upd_all W acc"
  proof (cases "d obj")
    case None
    then show ?thesis by (auto intro!: exI [of _ "[]"] simp: upd_all_def)
  next
    case (Some dataId)
    show ?thesis
    proof (cases "dataId \<noteq> [] \<and> u dataId")
      case True
      have "\<forall>acc. ?first acc = upd_all [(path, match_id dataId)] acc"
        using Some True by (simp add: upd_all_def)
      then show ?thesis by blast
    next
      case False
      then show ?thesis using Some by (auto intro!: exI [of _ "[]"] simp: upd_all_def)
    qed
  qed
  have body: "\<exists>W. \<forall>acc. ?body x acc = upd_all W acc" if x: "x \<in> set (Object_entries obj)" for x
  proof -
    obtain key val where kv: "x = (key, val)" by (cases x)
    show ?thesis
    proof (cases val)
      case (JArr elems)
      have "\<exists>W. \<forall>acc. (\<lambda>(i, v) acc.
                 getIds d u v (path @ ''.'' @ key @ ''['' @ show_nat i @ '']'') acc) y acc
               = upd_all W acc" if "y \<in> set (enumerate 0 elems)" for y
      proof -
        obtain i v where y: "y = (i, v)" by (cases y)
        from x kv JArr that y have "size v < size obj"
          by (auto intro: size_entry_elem_less)
        from less [OF this] show ?thesis by (simp add: y)
      qed
      from fold_writes [of "enumerate 0 elems", OF this] show ?thesis
        by (simp add: kv JArr)
    next
      case (JObj gs)
      from x kv have "size val < size obj" by (auto intro: size_entry_less)
      from less [OF this] show ?thesis by (simp add: kv JObj)
    next
      case JNull
      from x kv have "size val < size obj" by (auto intro: size_entry_less)
      from less [OF this] show ?thesis by (simp add: kv JNull)
    qed (auto intro!: exI [of _ "[]"] simp: kv upd_all_def)
  qed
  from fold_writes [of "Object_entries obj" ?body, OF body]
  obtain W2 where W2: "\<forall>acc. fold ?body (Object_entries obj) acc = upd_all W2 acc" by blast
  from first obtain W1 where W1: "\<forall>acc. ?first acc = upd_all W1 acc" by blast
  show ?case
  proof (cases "\<not> truthy obj \<or> typeof obj \<noteq> ''object''")
    case True
    then have "\<forall>acc. getIds d u obj path acc = acc"
      by (auto simp: getIds.simps [of d u obj path])
    then show ?thesis by (auto intro!: exI [of _ "[]"] simp: upd_all_def)
  next
    case False
    then have "\<forall>acc. getIds d u obj path acc = upd_all (W1 @ W2) acc"
      using W1 W2 by (simp add: getIds.simps [of d u obj path] upd_all_append)
    then show ?thesis by blast
  qed
qed


lemma map_of_upd_all: "map_of (upd_all W acc) = map_of acc ++ map_of (rev W)"
proof (induction W arbitrary: acc)
  case Nil
  show ?case by (simp add: upd_all_def)
next
  case (Cons w W)
  obtain k v where w: "w = (k, v)" by (cases w)
  have "upd_all (w # W) acc = upd_all W (AList.update k v acc)"
    by (simp add: upd_all_def w)
  then show ?case
    by (simp add: Cons.IH update_conv' w map_add_def fun_eq_iff split: option.splits)
qed

lemma keys_upd_all: "set (map fst (upd_all W acc)) = set (map fst acc) \<union> fst ` set W"
proof (induction W arbitrary: acc)
  case Nil
  show ?case by (simp add: upd_all_def)
next
  case (Cons w W)
  obtain k v where w: "w = (k, v)" by (cases w)
  have "upd_all (w # W) acc = upd_all W (AList.update k v acc)"
    by (simp add: upd_all_def w)
  then show ?case
    using Cons.IH [of "AList.update k v acc"] by (auto simp: w update_keys)
qed

lemma keys_upd_all_present:
  "fst ` set W \<subseteq> set (map fst acc) \<Longrightarrow> map fst (upd_all W acc) = map fst acc"
proof (induction W arbitrary: acc)
  case Nil
  show ?case by (simp add: upd_all_def)
next
  case (Cons w W)
  obtain k v where w: "w = (k, v)" by (cases w)
  have step: "upd_all (w # W) acc = upd_all W (AList.update k v acc)"
    by (simp add: upd_all_def w)
  have same: "map fst (AList.update k v acc) = map fst acc"
    using Cons.prems by (auto simp: w update_keys)
  with Cons.prems have "fst ` set W \<subseteq> set (map fst (AList.update k v acc))" by simp
  from Cons.IH [OF this] show ?case by (simp add: step same)
qed

lemma distinct_upd_all: "distinct (map fst acc) \<Longrightarrow> distinct (map fst (upd_all W acc))"
proof (induction W arbitrary: acc)
  case Nil
  then show ?case by (simp add: upd_all_def)
next
  case (Cons w W)
  obtain k v where w: "w = (k, v)" by (cases w)
  have step: "upd_all (w # W) acc = upd_all W (AList.update k v acc)"
    by (simp add: upd_all_def w)
  from Cons.prems have "distinct (map fst (AList.update k v acc))" by (rule distinct_update)
  from Cons.IH [OF this] show ?case by (simp add: step)
qed

lemma alist_eqI:
  "map fst xs = map fst ys \<Longrightarrow> distinct (map fst xs) \<Longrightarrow> map_of xs = map_of ys \<Longrightarrow> xs = ys"
proof (induction xs arbitrary: ys)
  case Nil
  then show ?case by simp
next
  case (Cons x xs)
  then obtain y ys' where ys: "ys = y # ys'" by (cases ys) auto
  obtain k v where x: "x = (k, v)" by (cases x)
  obtain k' v' where y: "y = (k', v')" by (cases y)
  from Cons.prems(1) have k: "k' = k" and keys: "map fst xs = map fst ys'"
    by (simp_all add: ys x y)
  have "map_of (x # xs) k = map_of ys k" by (rule fun_cong [OF Cons.prems(3)])
  then have v: "v' = v" by (simp add: ys x y k)
  from Cons.prems(2) have notin: "k \<notin> fst ` set xs" and d: "distinct (map fst xs)"
    by (simp_all add: x)
  have "map_of xs = map_of ys'"
  proof
    fix a
    show "map_of xs a = map_of ys' a"
    proof (cases "a = k")
      case True
      have "fst ` set xs = fst ` set ys'"
        using arg_cong [OF keys, of set] by simp
      with notin True have "map_of xs a = None" "map_of ys' a = None"
        by (simp_all add: map_of_eq_None_iff)
      then show ?thesis by simp
    next
      case False
      have "map_of (x # xs) a = map_of ys a" by (rule fun_cong [OF Cons.prems(3)])
      with False show ?thesis by (simp add: ys x y k)
    qed
  qed
  from Cons.IH [OF keys d this] show ?case by (simp add: ys x y k v)
qed

lemma upd_all_idem:
  assumes "distinct (map fst acc)"
  shows "upd_all W (upd_all W acc) = upd_all W acc"
proof (rule alist_eqI)
  have "fst ` set W \<subseteq> set (map fst (upd_all W acc))"
    using keys_upd_all [of W acc] by auto
  then show "map fst (upd_all W (upd_all W acc)) = map fst (upd_all W acc)"
    by (rule keys_upd_all_present)
  show "distinct (map fst (upd_all W (upd_all W acc)))"
    by (intro distinct_upd_all assms)
  show "map_of (upd_all W (upd_all W acc)) = map_of (upd_all W acc)"
    by (simp add: map_of_upd_all map_add_def fun_eq_iff split: option.splits)
qed

lemma fold_update_last:
  "k \<in> set ks \<Longrightarrow>
     \<exists>k' \<in> set ks. f k' = f k
        \<and> map_of (fold (\<lambda>k acc. AList.update (f k) (g k) acc) ks acc) (f k) = Some (g k')"
proof (induction ks rule: rev_induct)
  case Nil
  then show ?case by simp
next
  case (snoc x ks)
  show ?case
  proof (cases "f x = f k")
    case True
    then show ?thesis by (auto simp: update_conv')
  next
    case False
    with snoc.prems have "k \<in> set ks" by auto
    from snoc.IH [OF this] False show ?thesis by (auto simp: update_conv')
  qed
qed

lemma fold_update_upd_all:
  "fold (\<lambda>k acc. AList.update (f k) (g k) acc) ks acc = upd_all (map (\<lambda>k. (f k, g k)) ks) acc"
  by (simp add: upd_all_def fold_map comp_def)

lemma distinct_own_property_order:
  "distinct (map fst fs) \<Longrightarrow> distinct (map fst (own_property_order fs))"
  by (auto simp: own_property_order_def distinct_map inj_on_def)

lemma map_of_own_property_order:
  "distinct (map fst fs) \<Longrightarrow> map_of (own_property_order fs) = map_of fs"
  by (subst map_of_inject_set) (simp_all add: distinct_own_property_order)

lemma map_of_rev_distinct: "distinct (map fst xs) \<Longrightarrow> map_of (rev xs) = map_of xs"
proof -
  assume d: "distinct (map fst xs)"
  then have "distinct (map fst (rev xs))" by (simp add: rev_map [symmetric])
  with d show ?thesis by (subst map_of_inject_set) simp_all
qed

lemma spread_entry:
  assumes "distinct (map fst entries)" and "map_of entries key = Some v"
  shows "map_of (spread state entries) key = Some v"
proof -
  have d: "distinct (map fst (own_property_order entries))"
    using assms(1) by (rule distinct_own_property_order)
  have "map_of (rev (own_property_order entries)) key = Some v"
    using assms by (simp add: map_of_rev_distinct [OF d] map_of_own_property_order)
  then show ?thesis
    by (simp add: spread_def upd_all_def [symmetric] map_of_upd_all map_add_def)
qed




lemma enqueue_entry:
  assumes "(p, i) \<in> set (getIds d u opt [] [])"
  shows "map_of (idsMapReducer d u st (ENQUEUE opt) n) (toString i) = Some JNull"
proof -
  let ?ids = "map snd (own_property_order (getIds d u opt [] []))"
  let ?entries = "fold (\<lambda>i acc. AList.update (toString i) JNull acc) ?ids []"
  from assms have "i \<in> set ?ids" by force
  from fold_update_last [OF this, of toString "\<lambda>_. JNull" "[]"]
  have "map_of ?entries (toString i) = Some JNull" by auto
  moreover have "distinct (map fst ?entries)"
    by (simp add: fold_update_upd_all distinct_upd_all)
  ultimately have "map_of (spread (case st of None \<Rightarrow> [] | Some s \<Rightarrow> s) ?entries) (toString i)
                     = Some JNull"
    by (rule spread_entry [rotated])
  then show ?thesis by (simp add: Let_def)
qed


subsection \<open>Extraction\<close>

text \<open>
  C9. Extracting the identifiers of a tree a second time changes nothing: run again on
  the accumulator that the first run returned, \<open>getIds\<close> returns that accumulator, for every
  tree, identity function, path and (well-formed) starting accumulator. In particular two
  runs from the default \<open>{}\<close> give the same mapping from paths to identifiers.
\<close>

theorem C9_getIds_idempotent:
  assumes "distinct (map fst acc)"
  shows "getIds d u obj path (getIds d u obj path acc) = getIds d u obj path acc"
proof -
  from getIds_writes [of d u obj path] obtain W
    where "\<forall>acc. getIds d u obj path acc = upd_all W acc" by blast
  then show ?thesis by (simp add: upd_all_idem assms)
qed

lemma getIds_optimisticParent:
  "getIds sample_dataIdFromObject sample_isUuid optimisticParent [] []
     = [(''addParent'', JStr ''aaaa-1''), (''addParent.kids[0]'', JStr ''bbbb-2'')]"
  by code_simp

theorem C9_witness:
  "getIds sample_dataIdFromObject sample_isUuid optimisticParent []
     (getIds sample_dataIdFromObject sample_isUuid optimisticParent [] [])
   = [(''addParent'', JStr ''aaaa-1''), (''addParent.kids[0]'', JStr ''bbbb-2'')]"
  using C9_getIds_idempotent [of "[]" sample_dataIdFromObject sample_isUuid optimisticParent "[]"]
  by (simp add: getIds_optimisticParent)

subsection \<open>Substitution\<close>

lemma replaceUsingMap_JObj:
  "\<not> truthy (lookup m ''[object Object]'') \<Longrightarrow>
     replaceUsingMap (JObj fs) (Present m)
       = JObj (map (\<lambda>(key, val). (key, replaceUsingMap_key val (Present m))) fs)"
  by (simp add: replaceUsingMap.simps [of "JObj fs"] the_map_def)

text \<open>
  C10. \<open>ENQUEUE\<close> enters every identifier extracted from the optimistic response with
  the value \<open>null\<close>. An identifier whose entry is \<open>null\<close> is not substituted: as a value of
  its own (an array element) and as the value of a property it comes back unchanged; an
  object that is not replaced as a whole is rewritten property by property, so the
  property keeps the temporary identifier; and a structure in which no value has a truthy
  entry is returned as it is.
\<close>

theorem C10_null_entry_left_unchanged:
  "(\<forall>(p, i) \<in> set (getIds d u opt [] []).
       map_of (idsMapReducer d u st (ENQUEUE opt) n) (toString i) = Some JNull)
   \<and> (map_of m t = Some JNull \<longrightarrow>
         replaceUsingMap (JStr t) (Present m) = JStr t
       \<and> replaceUsingMap_key (JStr t) (Present m) = JStr t)
   \<and> (\<not> truthy (lookup m ''[object Object]'') \<longrightarrow>
         replaceUsingMap (JObj fs) (Present m)
           = JObj (map (\<lambda>(key, val). (key, replaceUsingMap_key val (Present m))) fs))
   \<and> ((\<forall>w \<in> set (subvalues v). \<not> truthy (lookup m (toString w))) \<longrightarrow>
         replaceUsingMap v (Present m) = v)"
  using enqueue_entry [of _ _ d u opt st n] replace_null_entry [of m t]
        replaceUsingMap_JObj [of m fs] replace_identity [of v m]
  by blast

lemma enqueue_optimisticParent:
  "idsMapReducer sample_dataIdFromObject sample_isUuid None (ENQUEUE optimisticParent) 1
     = [(''aaaa-1'', JNull), (''bbbb-2'', JNull)]"
  by code_simp

theorem C10_witness:
  "(''addParent'', JStr ''aaaa-1'')
      \<in> set (getIds sample_dataIdFromObject sample_isUuid optimisticParent [] [])
   \<and> map_of (idsMapReducer sample_dataIdFromObject sample_isUuid None (ENQUEUE optimisticParent) 1)
        ''aaaa-1'' = Some JNull
   \<and> replaceUsingMap (JStr ''aaaa-1'') (Present [(''aaaa-1'', JNull), (''bbbb-2'', JNull)])
        = JStr ''aaaa-1''
   \<and> replaceUsingMap childVariables (Present [(''aaaa-1'', JNull), (''bbbb-2'', JNull)])
        = JObj [(''parentId'', JStr ''aaaa-1''), (''otherParentId'', JStr ''eeee-5''),
                (''name'', JStr ''kid'')]"
proof -
  let ?m = "[(''aaaa-1'', JNull), (''bbbb-2'', JNull)]"
  note inst = C10_null_entry_left_unchanged
               [of sample_dataIdFromObject sample_isUuid optimisticParent None 1
                   ?m "''aaaa-1''" "[]" childVariables]
  have member: "(''addParent'', JStr ''aaaa-1'')
      \<in> set (getIds sample_dataIdFromObject sample_isUuid optimisticParent [] [])"
    by (simp add: getIds_optimisticParent)
  have quiet: "\<forall>w \<in> set (subvalues childVariables). \<not> truthy (lookup ?m (toString w))"
    by (simp add: childVariables_def lookup_def Object_prototype_keys_def)
  from inst member have "map_of (idsMapReducer sample_dataIdFromObject sample_isUuid None
                                  (ENQUEUE optimisticParent) 1) ''aaaa-1'' = Some JNull"
    by fastforce
  moreover from inst have "replaceUsingMap (JStr ''aaaa-1'') (Present ?m) = JStr ''aaaa-1''"
    by simp
  moreover from inst quiet have "replaceUsingMap childVariables (Present ?m) = childVariables"
    by blast
  ultimately show ?thesis using member by (simp add: childVariables_def)
qed








subsection \<open>The identifier map when the queue drains\<close>

lemma commit_clears_idsMap:
  assumes "metadataReducer d u state COMMIT = Some s"
      and "enqueuedMutations (snapshot s) = 0"
  shows "idsMap s = []"
  using assms by (auto simp: metadataReducer_def Let_def)

text \<open>
  C6. The claim fails on a rollback. One mutation is enqueued and then rolled back: the
  count of enqueued mutations is back at 0, and the identifier map still holds the
  entries that \<open>ENQUEUE\<close> made, because \<open>idsMapReducer\<close> has no case for \<open>ROLLBACK\<close>.
\<close>

theorem C6_rollback_keeps_idsMap:
  "dispatch_all sample_dataIdFromObject sample_isUuid None [ENQUEUE optimisticParent, ROLLBACK]
     = Some \<lparr> snapshot = \<lparr> enqueuedMutations = 0, cache = [] \<rparr>,
              idsMap = [(''aaaa-1'', JNull), (''bbbb-2'', JNull)] \<rparr>"
  by code_simp

section \<open>Termination of the substitution\<close>

lemma well_ranked_iff:
  "well_ranked ranks h \<longleftrightarrow>
     length ranks = length h \<and>
     (\<forall>a < length h. \<forall>v \<in> set (children (h ! a)). below ranks h (ranks ! a) v)"
  by (auto simp: well_ranked_def list_all_iff)

lemma below_prim [simp]: "\<not> is_ref v \<Longrightarrow> below ranks h x v"
  by (cases v) (auto simp: below_def)

lemma below_ext:
  "below ranks h x v \<Longrightarrow> length ranks = length h \<Longrightarrow> length h \<le> length h'
     \<Longrightarrow> below (ranks @ zs) h' x v"
  by (cases v) (auto simp: below_def nth_append)

lemma hlookup_no_ref: "no_refs m \<Longrightarrow> \<not> is_ref (hlookup m k)"
  by (auto simp: hlookup_def no_refs_def list_all_iff split: option.splits dest!: map_of_SomeD)

lemma get_prop_child:
  "get_prop obj key = HUndefined \<or> get_prop obj key \<in> set (children obj)"
proof (cases obj)
  case (HObject fs)
  then show ?thesis
    by (cases key) (auto split: option.splits dest!: map_of_SomeD intro: rev_image_eqI)
next
  case (HArray xs)
  then show ?thesis by (cases key) auto
qed

lemma get_prop_below:
  assumes "well_ranked ranks h" and "a < length h"
  shows "below ranks h (ranks ! a) (get_prop (h ! a) key)"
  using assms get_prop_child [of "h ! a" key]
  by (auto simp: well_ranked_iff)

lemma children_set_prop:
  "set (children (set_prop obj key r)) \<subseteq> insert r (set (children obj))"
proof (cases obj)
  case (HObject fs)
  have "snd ` set (AList.update k r fs) \<subseteq> insert r (snd ` set fs)" for k
    by (induction fs) auto
  with HObject show ?thesis by (cases key) auto
next
  case (HArray xs)
  then show ?thesis
    using set_update_subset_insert [of xs _ r] by (cases key) auto
qed

lemma well_ranked_write:
  assumes "well_ranked ranks h" and "a < length h" and "below ranks h (ranks ! a) r"
  shows "well_ranked ranks (h[a := set_prop (h ! a) key r])"
proof -
  have len: "length (h[a := set_prop (h ! a) key r]) = length h" by simp
  have same: "below ranks (h[a := set_prop (h ! a) key r]) x v = below ranks h x v" for x v
    by (cases v) (simp_all add: below_def)
  show ?thesis
    unfolding well_ranked_iff len same
  proof (intro conjI allI impI ballI)
    show "length ranks = length h" using assms(1) by (simp add: well_ranked_iff)
  next
    fix c v
    assume c: "c < length h" and v: "v \<in> set (children (h[a := set_prop (h ! a) key r] ! c))"
    show "below ranks h (ranks ! c) v"
    proof (cases "c = a")
      case True
      with v assms(2) have "v \<in> insert r (set (children (h ! a)))"
        using children_set_prop [of "h ! a" key r] by auto
      with assms True show ?thesis by (auto simp: well_ranked_iff)
    next
      case False
      with v c assms(1) show ?thesis by (auto simp: well_ranked_iff)
    qed
  qed
qed

lemma well_ranked_alloc:
  assumes "well_ranked ranks h" and "list_all (below ranks h x) rs"
  shows "well_ranked (ranks @ [x]) (h @ [HArray rs])"
proof -
  from assms(1) have len: "length ranks = length h" by (simp add: well_ranked_iff)
  show ?thesis
    unfolding well_ranked_iff
  proof (intro conjI allI impI ballI)
    show "length (ranks @ [x]) = length (h @ [HArray rs])" using len by simp
  next
    fix c v
    assume c: "c < length (h @ [HArray rs])"
       and v: "v \<in> set (children ((h @ [HArray rs]) ! c))"
    show "below (ranks @ [x]) (h @ [HArray rs]) ((ranks @ [x]) ! c) v"
    proof (cases "c < length h")
      case True
      with v assms(1) have "below ranks h (ranks ! c) v"
        by (auto simp: well_ranked_iff nth_append)
      from below_ext [OF this len, of "h @ [HArray rs]" "[x]"] True len show ?thesis
        by (simp add: nth_append)
    next
      case False
      with c have c': "c = length h" by simp
      with v assms(2) have "below ranks h x v" by (auto simp: list_all_iff)
      from below_ext [OF this len, of "h @ [HArray rs]" "[x]"] c' len show ?thesis
        by (simp add: nth_append)
    qed
  qed
qed


lemma below_enough:
  "below ranks h x v \<Longrightarrow> x + 1 \<le> n \<Longrightarrow> enough n ranks h v"
  by (cases v) (auto simp: below_def enough_def)

lemma map_elems_total:
  assumes IH: "returns n K m"
  shows "well_ranked ranks h \<Longrightarrow> b < length h \<Longrightarrow> ranks ! b + 1 \<le> n \<Longrightarrow>
     \<exists>rs h' zs. map_elems n K m b is h = Some (rs, h')
        \<and> well_ranked (ranks @ zs) h' \<and> length h \<le> length h'
        \<and> list_all (below (ranks @ zs) h' (ranks ! b)) rs"
proof (induction "is" arbitrary: h ranks)
  case Nil
  have "map_elems n K m b [] h = Some ([], h) \<and> well_ranked (ranks @ []) h \<and> length h \<le> length h
        \<and> list_all (below (ranks @ []) h (ranks ! b)) []"
    using Nil by simp
  then show ?case by blast
next
  case (Cons i "is")
  let ?e = "get_prop (h ! b) (Index i)"
  from Cons.prems have len: "length ranks = length h" by (simp add: well_ranked_iff)
  have e_below: "below ranks h (ranks ! b) ?e"
    using Cons.prems by (intro get_prop_below)
  then have "enough n ranks h ?e" using Cons.prems(3) by (rule below_enough)
  with IH Cons.prems(1) obtain r h1 z1
    where run: "replaceUsingMap_heap n K m ?e h = Some (r, h1)"
      and wr1: "well_ranked (ranks @ z1) h1" and le1: "length h \<le> length h1"
      and r: "r = ?e \<or> \<not> is_ref r"
    unfolding returns_def by blast
  have r_below: "below (ranks @ z1) h1 (ranks ! b) r"
    using r below_ext [OF e_below len le1] by auto
  have b1: "b < length h1" using Cons.prems(2) le1 by simp
  have rank1: "(ranks @ z1) ! b = ranks ! b" using Cons.prems(2) len by (simp add: nth_append)
  from Cons.IH [OF wr1 b1] rank1 Cons.prems(3) obtain rs h2 z2
    where rest: "map_elems n K m b is h1 = Some (rs, h2)"
      and wr2: "well_ranked ((ranks @ z1) @ z2) h2" and le2: "length h1 \<le> length h2"
      and rs: "list_all (below ((ranks @ z1) @ z2) h2 (ranks ! b)) rs"
    by auto
  from wr1 have len1: "length (ranks @ z1) = length h1" by (simp add: well_ranked_iff)
  have "below ((ranks @ z1) @ z2) h2 (ranks ! b) r"
    by (rule below_ext [OF r_below len1 le2])
  with run rest wr2 le1 le2 rs
  have "map_elems n K m b (i # is) h = Some (r # rs, h2)
        \<and> well_ranked (ranks @ (z1 @ z2)) h2 \<and> length h \<le> length h2
        \<and> list_all (below (ranks @ (z1 @ z2)) h2 (ranks ! b)) (r # rs)"
    by simp
  then show ?case by blast
qed

lemma forEach_key_total:
  assumes IH: "returns n K m" and m: "no_refs m"
  shows "well_ranked ranks h \<Longrightarrow> a < length h \<Longrightarrow> ranks ! a + 1 \<le> n \<Longrightarrow>
     \<exists>h' zs. forEach_key n K m a ks h = Some h'
        \<and> well_ranked (ranks @ zs) h' \<and> length h \<le> length h'"
proof (induction ks arbitrary: h ranks)
  case Nil
  have "forEach_key n K m a [] h = Some h \<and> well_ranked (ranks @ []) h \<and> length h \<le> length h"
    using Nil by simp
  then show ?case by blast
next
  case (Cons key ks)
  let ?val = "get_prop (h ! a) key"
  from Cons.prems have len: "length ranks = length h" by (simp add: well_ranked_iff)
  have val_below: "below ranks h (ranks ! a) ?val"
    using Cons.prems by (intro get_prop_below)
  have continue: "\<exists>h' zs. forEach_key n K m a ks h1 = Some h'
        \<and> well_ranked (ranks @ zs) h' \<and> length h \<le> length h'"
    if wr1: "well_ranked (ranks @ z1) h1" and le1: "length h \<le> length h1" for h1 z1
  proof -
    have a1: "a < length h1" using Cons.prems(2) le1 by simp
    have "(ranks @ z1) ! a = ranks ! a" using Cons.prems(2) len by (simp add: nth_append)
    with Cons.IH [OF wr1 a1] Cons.prems(3) obtain h2 z2
      where "forEach_key n K m a ks h1 = Some h2" "well_ranked ((ranks @ z1) @ z2) h2"
            "length h1 \<le> length h2"
      by auto
    with le1 have "forEach_key n K m a ks h1 = Some h2 \<and> well_ranked (ranks @ (z1 @ z2)) h2
                   \<and> length h \<le> length h2" by simp
    then show ?thesis by blast
  qed
  show ?case
  proof (cases "is_array h ?val")
    case True
    then obtain b where val: "?val = HRef b" by (cases ?val) auto
    with val_below have b: "b < length h" and rank_b: "ranks ! b < ranks ! a"
      by (auto simp: below_def)
    from rank_b Cons.prems(3) have "ranks ! b + 1 \<le> n" by simp
    from map_elems_total [OF IH Cons.prems(1) b this, of "[0 ..< array_length (h ! b)]"]
    obtain rs h1 z1
      where run: "map_elems n K m b [0 ..< array_length (h ! b)] h = Some (rs, h1)"
        and wr1: "well_ranked (ranks @ z1) h1" and le1: "length h \<le> length h1"
        and rs: "list_all (below (ranks @ z1) h1 (ranks ! b)) rs"
      by blast
    from wr1 have len1: "length (ranks @ z1) = length h1" by (simp add: well_ranked_iff)
    have a1: "a < length h1" using Cons.prems(2) le1 by simp
    have wr2: "well_ranked ((ranks @ z1) @ [ranks ! b]) (h1 @ [HArray rs])"
      using wr1 rs by (rule well_ranked_alloc)
    have at_new: "((ranks @ z1) @ [ranks ! b]) ! length h1 = ranks ! b"
      unfolding len1 [symmetric] by (rule nth_append_length)
    have at_a: "((ranks @ z1) @ [ranks ! b]) ! a = ranks ! a"
      using Cons.prems(2) len by (simp add: nth_append)
    have "below ((ranks @ z1) @ [ranks ! b]) (h1 @ [HArray rs])
            (((ranks @ z1) @ [ranks ! b]) ! a) (HRef (length h1))"
      unfolding at_a using rank_b at_new by (simp add: below_def)
    from well_ranked_write [OF wr2 _ this, of key] a1
    have "well_ranked (ranks @ (z1 @ [ranks ! b]))
            ((h1 @ [HArray rs])[a := set_prop (h1 ! a) key (HRef (length h1))])"
      by (simp add: nth_append)
    from continue [OF this] le1
    obtain h' zs where "forEach_key n K m a ks
          ((h1 @ [HArray rs])[a := set_prop (h1 ! a) key (HRef (length h1))]) = Some h'"
        "well_ranked (ranks @ zs) h'" "length h \<le> length h'"
      by auto
    with True val run have "forEach_key n K m a (key # ks) h = Some h'
        \<and> well_ranked (ranks @ zs) h' \<and> length h \<le> length h'"
      by simp
    then show ?thesis by blast
  next
    case not_array: False
    show ?thesis
    proof (cases "?val = HNull \<or> is_ref ?val")
      case True
      have "enough n ranks h ?val" using val_below Cons.prems(3) by (rule below_enough)
      with IH Cons.prems(1) obtain r h1 z1
        where run: "replaceUsingMap_heap n K m ?val h = Some (r, h1)"
          and wr1: "well_ranked (ranks @ z1) h1" and le1: "length h \<le> length h1"
          and r: "r = ?val \<or> \<not> is_ref r"
        unfolding returns_def by blast
      have a1: "a < length h1" using Cons.prems(2) le1 by simp
      have "below (ranks @ z1) h1 (ranks ! a) r"
        using r below_ext [OF val_below len le1] by auto
      then have "below (ranks @ z1) h1 ((ranks @ z1) ! a) r"
        using Cons.prems(2) len by (simp add: nth_append)
      from well_ranked_write [OF wr1 a1 this, of key]
      have "well_ranked (ranks @ z1) (h1[a := set_prop (h1 ! a) key r])" .
      from continue [OF this] le1
      obtain h' zs where "forEach_key n K m a ks (h1[a := set_prop (h1 ! a) key r]) = Some h'"
          "well_ranked (ranks @ zs) h'" "length h \<le> length h'"
        by auto
      with True not_array run have "forEach_key n K m a (key # ks) h = Some h'
          \<and> well_ranked (ranks @ zs) h' \<and> length h \<le> length h'"
        by simp
      then show ?thesis by blast
    next
      case scalar: False
      show ?thesis
      proof (cases "htruthy (hlookup m (hkey K h ?val))")
        case True
        have "below ranks h (ranks ! a) (hlookup m (hkey K h ?val))"
          using hlookup_no_ref [OF m] by simp
        from well_ranked_write [OF Cons.prems(1,2) this, of key]
        have "well_ranked (ranks @ [])
                (h[a := set_prop (h ! a) key (hlookup m (hkey K h ?val))])" by simp
        from continue [OF this]
        obtain h' zs where "forEach_key n K m a ks
              (h[a := set_prop (h ! a) key (hlookup m (hkey K h ?val))]) = Some h'"
            "well_ranked (ranks @ zs) h'" "length h \<le> length h'"
          by auto
        with True not_array scalar have "forEach_key n K m a (key # ks) h = Some h'
            \<and> well_ranked (ranks @ zs) h' \<and> length h \<le> length h'"
          by simp
        then show ?thesis by blast
      next
        case False
        from Cons.prems(1) have "well_ranked (ranks @ []) h" by simp
        from continue [OF this]
        obtain h' zs where "forEach_key n K m a ks h = Some h'"
            "well_ranked (ranks @ zs) h'" "length h \<le> length h'"
          by auto
        with False not_array scalar have "forEach_key n K m a (key # ks) h = Some h'
            \<and> well_ranked (ranks @ zs) h' \<and> length h \<le> length h'"
          by simp
        then show ?thesis by blast
      qed
    qed
  qed
qed

lemma replaceUsingMap_heap_returns:
  assumes m: "no_refs m"
  shows "returns n K m"
proof (induction n)
  case 0
  show ?case by (simp add: returns_def enough_def)
next
  case (Suc n)
  show ?case
    unfolding returns_def
  proof (intro allI impI)
    fix v h ranks
    assume wr: "well_ranked ranks h" and en: "enough (Suc n) ranks h v"
    have stay: "\<exists>r h' zs. Some (x, h) = Some (r, h') \<and> well_ranked (ranks @ zs) h'
                  \<and> length h \<le> length h' \<and> (r = v \<or> \<not> is_ref r)"
      if "x = v \<or> \<not> is_ref x" for x
      using that wr by (intro exI [of _ x] exI [of _ h] exI [of _ "[]"]) simp
    show "\<exists>r h' zs. replaceUsingMap_heap (Suc n) K m v h = Some (r, h')
            \<and> well_ranked (ranks @ zs) h' \<and> length h \<le> length h' \<and> (r = v \<or> \<not> is_ref r)"
    proof (cases "\<not> htruthy v")
      case True
      then show ?thesis using stay [of v] by simp
    next
      case truthy: False
      show ?thesis
      proof (cases "htruthy (hlookup m (hkey K h v))")
        case True
        then show ?thesis using truthy stay [of "hlookup m (hkey K h v)"] hlookup_no_ref [OF m]
          by simp
      next
        case False
        show ?thesis
        proof (cases v)
          case (HRef a)
          with en have a: "a < length h" and rank: "ranks ! a + 1 \<le> n"
            by (auto simp: enough_def)
          from forEach_key_total [OF Suc m wr a rank, of "keys_of (h ! a)"]
          obtain h' zs where "forEach_key n K m a (keys_of (h ! a)) h = Some h'"
              "well_ranked (ranks @ zs) h'" "length h \<le> length h'"
            by blast
          with truthy False HRef
          have "replaceUsingMap_heap (Suc n) K m v h = Some (v, h')
                \<and> well_ranked (ranks @ zs) h' \<and> length h \<le> length h' \<and> (v = v \<or> \<not> is_ref v)"
            by simp
          then show ?thesis by blast
        qed (use truthy False stay [of v] in simp_all)
      qed
    qed
  qed
qed

text \<open>
  C5 (as amended). \<open>replaceUsingMap\<close> returns on every acyclic structure, shared parts
  included: if the store has ranks and the map holds no objects, a call depth of the
  rank plus two is enough for an object, and one call for a primitive. It has no cap on
  the depth and no record of what it visited.
\<close>

theorem C5_returns_on_acyclic:
  assumes "no_refs m" and "well_ranked ranks h" and "enough n ranks h v"
  shows "\<exists>r h'. replaceUsingMap_heap n K m v h = Some (r, h')"
  using replaceUsingMap_heap_returns [OF assms(1), of n K] assms(2,3)
  unfolding returns_def by blast

lemma shared_heap_ranked: "well_ranked [2, 1, 0] shared_heap"
  by code_simp

theorem C5_witness:
  "no_refs [(''aaaa-1'', HStr ''cccc-3'')]
   \<and> well_ranked [2, 1, 0] shared_heap
   \<and> enough 4 [2, 1, 0] shared_heap (HRef 0)
   \<and> (\<exists>r h'. replaceUsingMap_heap 4 plainKey [(''aaaa-1'', HStr ''cccc-3'')] (HRef 0) shared_heap
                = Some (r, h'))"
proof -
  have 1: "no_refs [(''aaaa-1'', HStr ''cccc-3'')]" by (simp add: no_refs_def)
  have 2: "enough 4 [2, 1, 0] shared_heap (HRef 0)" by (simp add: enough_def shared_heap_def)
  from C5_returns_on_acyclic [OF 1 shared_heap_ranked 2, of plainKey] 1 2 shared_heap_ranked
  show ?thesis by blast
qed

text \<open>On a structure that holds itself no depth is enough: the call never returns (the
  engine ends it with a stack overflow).\<close>

theorem C5_counterexample:
  "\<forall>n. replaceUsingMap_heap n plainKey [(''aaaa-1'', HStr ''cccc-3'')] (HRef 0) cyclic_heap = None"
proof
  fix n
  show "replaceUsingMap_heap n plainKey [(''aaaa-1'', HStr ''cccc-3'')] (HRef 0) cyclic_heap = None"
  proof (induction n)
    case 0
    show ?case by simp
  next
    case (Suc n)
    then show ?case
      by (simp add: cyclic_heap_def plainKey_def hkey_def hlookup_def Object_prototype_keys_def
                    own_property_order_def array_index_def)
  qed
qed

section \<open>The immediate result of an offline mutation\<close>







end
